theory Spec2Isabelle
  imports Complex_Main "HOL-Library.Product_Lexorder" "HOL-Library.Code_Target_Nat"
begin

section \<open>Strings\<close>

text \<open>
  A Python string is a sequence of Unicode code points, modelled as a list of natural
  numbers. Literals of the source are written with \<open>lit\<close>, single characters with \<open>cp\<close>.
\<close>

type_synonym str = "nat list"

definition cp :: "char \<Rightarrow> nat" where
  "cp c = of_char c"

definition lit :: "string \<Rightarrow> str" where
  "lit s = map cp s"

text \<open>
  The tables of the interpreter that the program reads through the standard library,
  and one setting of the interpreter. They are not part of the repository and are
  parameters here:
  \<^item> \<open>tofolded\<close>: the full case folding of a code point, as \<open>str.casefold\<close> applies it to each
    character;
  \<^item> \<open>isalnum\<close>: whether \<open>str.isalnum\<close> holds of a code point; the class \<open>\w\<close> of a
    regular expression on strings is \<open>isalnum\<close> together with the underscore;
  \<^item> \<open>todecimal\<close>: the value of a decimal digit, for \<open>int\<close>;
  \<^item> \<open>max_str_digits\<close>: the limit on the number of digits that \<open>int\<close> converts, 0 when
    there is none (older versions of Python have none, current ones have 4300 unless
    configured).
\<close>

record runtime =
  tofolded :: "nat \<Rightarrow> nat list"
  isalnum :: "nat \<Rightarrow> bool"
  todecimal :: "nat \<Rightarrow> nat option"
  max_str_digits :: nat

section \<open>Text normalisation: \<open>Question.cleanup\<close>\<close>

text \<open>
  White space, as \<open>str.isspace\<close>, \<open>str.strip\<close> and the class \<open>\s\<close> of a regular expression
  on strings see it: the code points 9 to 13, 28 to 32, U+0085, U+00A0, U+1680, U+2000 to
  U+200A, U+2028, U+2029, U+202F, U+205F and U+3000.
\<close>

definition isspace :: "nat \<Rightarrow> bool" where
  "isspace c =
     ((9 \<le> c \<and> c \<le> 13) \<or> (28 \<le> c \<and> c \<le> 32) \<or> c = 0x85 \<or> c = 0xA0 \<or> c = 0x1680
      \<or> (0x2000 \<le> c \<and> c \<le> 0x200A) \<or> c = 0x2028 \<or> c = 0x2029 \<or> c = 0x202F
      \<or> c = 0x205F \<or> c = 0x3000)"

definition isword :: "runtime \<Rightarrow> nat \<Rightarrow> bool" where
  "isword py c = (isalnum py c \<or> c = cp CHR ''_'')"

text \<open>\<open>str.casefold()\<close> folds every character; a folding may have several characters.\<close>

definition casefold :: "runtime \<Rightarrow> str \<Rightarrow> str" where
  "casefold py s = concat (map (tofolded py) s)"

text \<open>\<open>str.strip()\<close> without argument: white space is removed at both ends.\<close>

definition strip :: "str \<Rightarrow> str" where
  "strip s = rev (dropWhile isspace (rev (dropWhile isspace s)))"

text \<open>
  The pattern \<open>r_cleanup\<close> is
  \<^verbatim>\<open>\s+|[\r\n]+|\b(?:the|an?|of)\b|[.!_,?()-]|<[^<]*>\<close>.
  Each alternative is a function that, given the text from the current position on,
  returns the length of its match there. The word alternative also needs the character
  before the position, for the assertion \<open>\b\<close>.
\<close>

fun isword_opt :: "runtime \<Rightarrow> nat option \<Rightarrow> bool" where
  "isword_opt py None = False"
| "isword_opt py (Some c) = isword py c"

text \<open>\<open>\b\<close> holds between two positions when exactly one side is a word character;
  the outside of the string counts as a non-word character.\<close>

definition word_boundary :: "runtime \<Rightarrow> nat option \<Rightarrow> nat option \<Rightarrow> bool" where
  "word_boundary py l r = (isword_opt py l \<noteq> isword_opt py r)"

definition char_at :: "str \<Rightarrow> nat \<Rightarrow> nat option" where
  "char_at s i = (if i < length s then Some (s ! i) else None)"

text \<open>\<open>\s+\<close>: the longest run of white space, at least one character.\<close>

definition match_space :: "str \<Rightarrow> nat option" where
  "match_space s = (let n = length (takeWhile isspace s) in if 0 < n then Some n else None)"

text \<open>\<open>[\r\n]+\<close>: the longest run of carriage returns and line feeds.\<close>

definition match_crlf :: "str \<Rightarrow> nat option" where
  "match_crlf s =
     (let n = length (takeWhile (\<lambda>c. c = 13 \<or> c = 10) s)
      in if 0 < n then Some n else None)"

text \<open>One literal word followed by \<open>\b\<close>.\<close>

definition match_literal :: "runtime \<Rightarrow> str \<Rightarrow> str \<Rightarrow> nat option" where
  "match_literal py w s =
     (if take (length w) s = w
         \<and> word_boundary py (char_at s (length w - 1)) (char_at s (length w))
      then Some (length w) else None)"

text \<open>\<open>\b(?:the|an?|of)\b\<close>: the alternatives are tried in order; \<open>an?\<close> is greedy, so
  it tries \<open>an\<close> before \<open>a\<close>.\<close>

fun first_match :: "runtime \<Rightarrow> str list \<Rightarrow> str \<Rightarrow> nat option" where
  "first_match py [] s = None"
| "first_match py (w # ws) s =
     (case match_literal py w s of Some n \<Rightarrow> Some n | None \<Rightarrow> first_match py ws s)"

definition match_article :: "runtime \<Rightarrow> nat option \<Rightarrow> str \<Rightarrow> nat option" where
  "match_article py prev s =
     (if word_boundary py prev (char_at s 0)
      then first_match py [lit ''the'', lit ''an'', lit ''a'', lit ''of''] s
      else None)"

text \<open>\<open>[.!_,?()-]\<close>: one punctuation character.\<close>

definition match_punct :: "str \<Rightarrow> nat option" where
  "match_punct s = (case s of [] \<Rightarrow> None
     | c # cs \<Rightarrow> if c \<in> set (lit ''.!_,?()-'') then Some 1 else None)"

text \<open>\<open><[^<]*>\<close>: the star is greedy and gives back characters until a \<open>>\<close> follows, so
  the match ends at the last \<open>>\<close> before the next \<open><\<close>.\<close>

definition match_tag :: "str \<Rightarrow> nat option" where
  "match_tag s = (case s of [] \<Rightarrow> None
     | c # cs \<Rightarrow>
         if c = cp CHR ''<'' then
           (let run = takeWhile (\<lambda>x. x \<noteq> cp CHR ''<'') cs in
            if cp CHR ''>'' \<in> set run
            then Some (Suc (length run - length (takeWhile (\<lambda>x. x \<noteq> cp CHR ''>'') (rev run))))
            else None)
         else None)"

fun or_else :: "'a option \<Rightarrow> 'a option \<Rightarrow> 'a option" where
  "or_else (Some x) y = Some x"
| "or_else None y = y"

definition r_cleanup_match :: "runtime \<Rightarrow> nat option \<Rightarrow> str \<Rightarrow> nat option" where
  "r_cleanup_match py prev s =
     or_else (match_space s) (or_else (match_crlf s) (or_else (match_article py prev s)
       (or_else (match_punct s) (match_tag s))))"

lemma match_space_bounds: "match_space s = Some n \<Longrightarrow> 0 < n \<and> n \<le> length s"
  by (auto simp: match_space_def Let_def length_takeWhile_le split: if_splits)

lemma match_crlf_bounds: "match_crlf s = Some n \<Longrightarrow> 0 < n \<and> n \<le> length s"
  by (auto simp: match_crlf_def Let_def length_takeWhile_le split: if_splits)

lemma match_literal_bounds:
  "match_literal py w s = Some n \<Longrightarrow> w \<noteq> [] \<Longrightarrow> 0 < n \<and> n \<le> length s"
proof -
  assume m: "match_literal py w s = Some n" and w: "w \<noteq> []"
  from m have n: "n = length w" and t: "take (length w) s = w"
    by (auto simp: match_literal_def split: if_splits)
  from arg_cong [OF t, of length] have "length w \<le> length s"
    by simp
  with n w show ?thesis by simp
qed

lemma first_match_bounds:
  "first_match py ws s = Some n \<Longrightarrow> [] \<notin> set ws \<Longrightarrow> 0 < n \<and> n \<le> length s"
proof (induction ws)
  case Nil
  then show ?case by simp
next
  case (Cons w ws)
  show ?case
  proof (cases "match_literal py w s")
    case None
    with Cons show ?thesis by simp
  next
    case (Some m)
    with Cons.prems have "m = n" and "w \<noteq> []" by auto
    with Some match_literal_bounds show ?thesis by blast
  qed
qed

lemma match_article_bounds: "match_article py prev s = Some n \<Longrightarrow> 0 < n \<and> n \<le> length s"
proof -
  assume "match_article py prev s = Some n"
  then have "first_match py [lit ''the'', lit ''an'', lit ''a'', lit ''of''] s = Some n"
    unfolding match_article_def by (simp split: if_splits del: first_match.simps)
  then show ?thesis
    by (rule first_match_bounds) (simp add: lit_def)
qed

lemma match_punct_bounds: "match_punct s = Some n \<Longrightarrow> 0 < n \<and> n \<le> length s"
  by (auto simp: match_punct_def split: list.splits if_splits)

lemma match_tag_bounds: "match_tag s = Some n \<Longrightarrow> 0 < n \<and> n \<le> length s"
proof -
  assume m: "match_tag s = Some n"
  then obtain c cs where s: "s = c # cs" by (cases s) (auto simp: match_tag_def)
  define run where "run = takeWhile (\<lambda>x. x \<noteq> cp CHR ''<'') cs"
  from m s have n: "n = Suc (length run - length (takeWhile (\<lambda>x. x \<noteq> cp CHR ''>'') (rev run)))"
    by (auto simp: match_tag_def Let_def run_def split: if_splits)
  have "length run \<le> length cs" by (simp add: run_def length_takeWhile_le)
  with n s show ?thesis by simp
qed

lemma r_cleanup_match_bounds: "r_cleanup_match py prev s = Some n \<Longrightarrow> 0 < n \<and> n \<le> length s"
  unfolding r_cleanup_match_def
  by (cases "match_space s"; cases "match_crlf s"; cases "match_article py prev s";
      cases "match_punct s")
     (auto dest: match_space_bounds match_crlf_bounds match_article_bounds
        match_punct_bounds match_tag_bounds)

text \<open>
  \<open>r_cleanup.sub(" ", string)\<close>: scanning from the left, the leftmost match is replaced
  by one blank and the scan goes on behind it; where nothing matches, the character is
  copied. \<open>prev\<close> is the character of the input before the position.
\<close>

definition blank :: nat where
  "blank = cp CHR '' ''"

function r_cleanup_sub :: "runtime \<Rightarrow> nat option \<Rightarrow> str \<Rightarrow> str" where
  "r_cleanup_sub py prev [] = []"
| "r_cleanup_sub py prev (c # cs) =
     (case r_cleanup_match py prev (c # cs) of
        Some n \<Rightarrow> blank # r_cleanup_sub py (Some ((c # cs) ! (n - 1))) (drop n (c # cs))
      | None \<Rightarrow> c # r_cleanup_sub py (Some c) cs)"
  by pat_completeness auto
termination
proof (relation "measure (\<lambda>(py, prev, s). length s)", goal_cases)
  case 1
  show ?case by simp
next
  case (2 py prev c cs)
  show ?case by simp
next
  case (3 py prev c cs n)
  then have "0 < n" using r_cleanup_match_bounds by blast
  then show ?case by simp
qed

text \<open>
  The loop of \<open>cleanup\<close> substitutes and strips until nothing changes. It ends because
  a round never makes the text longer (a match of at least one character becomes one
  blank) and a round that keeps the length turns a character that is not a blank into
  a blank. The measure is the length plus the number of characters other than blanks.
\<close>

definition weight :: "str \<Rightarrow> nat" where
  "weight s = length s + length (filter (\<lambda>c. c \<noteq> blank) s)"

lemma weight_append: "weight (xs @ ys) = weight xs + weight ys"
  by (simp add: weight_def)

lemma weight_rev: "weight (rev s) = weight s"
  by (simp add: weight_def flip: rev_filter)

lemma weight_Nil_iff: "weight s = 0 \<longleftrightarrow> s = []"
  by (auto simp: weight_def)

lemma weight_dropWhile:
  "weight (dropWhile P s) \<le> weight s \<and> (weight (dropWhile P s) = weight s \<longrightarrow> dropWhile P s = s)"
proof -
  have "weight s = weight (takeWhile P s) + weight (dropWhile P s)"
    by (simp flip: weight_append)
  moreover have "takeWhile P s = [] \<Longrightarrow> dropWhile P s = s"
    by (metis append_Nil takeWhile_dropWhile_id)
  ultimately show ?thesis
    using weight_Nil_iff [of "takeWhile P s"] by auto
qed

lemma weight_strip:
  "weight (strip s) \<le> weight s \<and> (weight (strip s) = weight s \<longrightarrow> strip s = s)"
proof -
  let ?t = "dropWhile isspace s"
  let ?u = "dropWhile isspace (rev ?t)"
  have a: "weight ?t \<le> weight s \<and> (weight ?t = weight s \<longrightarrow> ?t = s)"
    by (rule weight_dropWhile)
  have b: "weight ?u \<le> weight (rev ?t) \<and> (weight ?u = weight (rev ?t) \<longrightarrow> ?u = rev ?t)"
    by (rule weight_dropWhile)
  have c: "strip s = rev ?u" by (simp add: strip_def)
  from a b have "weight (strip s) \<le> weight s" by (simp add: c weight_rev)
  moreover have "strip s = s" if "weight (strip s) = weight s"
  proof -
    from that a b have "weight ?u = weight (rev ?t)" and "weight ?t = weight s"
      by (simp_all add: c weight_rev)
    with a b have "?u = rev ?t" and "?t = s" by simp_all
    then show ?thesis by (simp add: c)
  qed
  ultimately show ?thesis by blast
qed

lemma weight_sub:
  "weight (r_cleanup_sub py prev s) \<le> weight s \<and>
   (weight (r_cleanup_sub py prev s) = weight s \<longrightarrow> r_cleanup_sub py prev s = s)"
proof (induction py prev s rule: r_cleanup_sub.induct)
  case (1 py prev)
  then show ?case by simp
next
  case (2 py prev c cs)
  show ?case
  proof (cases "r_cleanup_match py prev (c # cs)")
    case None
    with 2 show ?thesis by (auto simp: weight_def)
  next
    case (Some n)
    let ?s = "c # cs"
    let ?r = "r_cleanup_sub py (Some (?s ! (n - 1))) (drop n ?s)"
    from Some have n: "0 < n" "n \<le> length ?s" using r_cleanup_match_bounds by blast+
    have ih: "weight ?r \<le> weight (drop n ?s) \<and> (weight ?r = weight (drop n ?s) \<longrightarrow> ?r = drop n ?s)"
      using 2(2) [OF Some] .
    have res: "r_cleanup_sub py prev ?s = blank # ?r" using Some by simp
    have split: "weight ?s = weight (take n ?s) + weight (drop n ?s)"
      by (simp flip: weight_append)
    have wres: "weight (blank # ?r) = 1 + weight ?r" by (simp add: weight_def)
    have tk: "1 \<le> weight (take n ?s)" using n by (simp add: weight_def)
    have le: "weight (r_cleanup_sub py prev ?s) \<le> weight ?s"
      using ih tk by (simp only: res wres split) linarith
    moreover have "r_cleanup_sub py prev ?s = ?s"
      if eq: "weight (r_cleanup_sub py prev ?s) = weight ?s"
    proof -
      from eq ih tk have t1: "weight (take n ?s) = 1" and r: "weight ?r = weight (drop n ?s)"
        by (simp_all only: res wres split) linarith+
      from t1 n have n1: "n = 1" and cc: "c = blank"
        by (cases n; auto simp: weight_def split: if_splits)+
      from r ih have rr: "?r = drop n ?s" by simp
      have "r_cleanup_sub py prev ?s = blank # drop n ?s"
        using res rr by (simp only:)
      also have "\<dots> = ?s" using n1 cc by simp
      finally show ?thesis .
    qed
    ultimately show ?thesis by blast
  qed
qed

text \<open>
  \<^verbatim>\<open>
  def cleanup(cls, string):
      string = string.casefold()
      while True:
          newstr = cls.r_cleanup.sub(" ", string).strip()
          if newstr == string:
              break
          string = newstr
      return string
  \<close>
\<close>

function cleanup_loop :: "runtime \<Rightarrow> str \<Rightarrow> str" where
  "cleanup_loop py s =
     (let newstr = strip (r_cleanup_sub py None s)
      in if newstr = s then s else cleanup_loop py newstr)"
  by pat_completeness auto
termination
proof (relation "measure (\<lambda>(py, s). weight s)", goal_cases)
  case 1
  show ?case by simp
next
  case (2 py s newstr)
  have a: "weight newstr \<le> weight (r_cleanup_sub py None s)"
     and a': "weight newstr = weight (r_cleanup_sub py None s) \<Longrightarrow> newstr = r_cleanup_sub py None s"
    using weight_strip [of "r_cleanup_sub py None s"] by (simp_all add: 2(1))
  have b: "weight (r_cleanup_sub py None s) \<le> weight s"
     and b': "weight (r_cleanup_sub py None s) = weight s \<Longrightarrow> r_cleanup_sub py None s = s"
    using weight_sub [of py None s] by simp_all
  have "weight newstr < weight s"
  proof (rule ccontr)
    assume "\<not> weight newstr < weight s"
    with a b have "weight newstr = weight (r_cleanup_sub py None s)"
        "weight (r_cleanup_sub py None s) = weight s"
      by linarith+
    with a' b' 2(2) show False by simp
  qed
  then show ?case by simp
qed

declare cleanup_loop.simps [simp del]

definition cleanup :: "runtime \<Rightarrow> str \<Rightarrow> str" where
  "cleanup py string = cleanup_loop py (casefold py string)"

section \<open>Similarity of two strings: \<open>difflib.SequenceMatcher\<close>\<close>

text \<open>
  \<open>Question.check\<close> calls \<open>SequenceMatcher(None, expected, answer).ratio()\<close> of Python's
  standard library. The functions below follow \<open>difflib.py\<close>: there is no junk predicate
  (\<open>isjunk\<close> is \<open>None\<close>, so \<open>bjunk\<close> is empty) and \<open>autojunk\<close> is on.

  \<open>__chain_b\<close> builds \<open>b2j\<close>, which maps an element to the ascending list of its positions
  in \<open>b\<close>; when \<open>b\<close> has 200 elements or more, an element that occurs more than
  \<open>len(b) // 100 + 1\<close> times is popular and loses its entry.
\<close>

type_synonym match = "nat \<times> nat \<times> nat"

definition indices_of :: "'a list \<Rightarrow> 'a \<Rightarrow> nat list" where
  "indices_of b elt = filter (\<lambda>j. b ! j = elt) [0..<length b]"

definition popular :: "'a list \<Rightarrow> 'a \<Rightarrow> bool" where
  "popular b elt = (200 \<le> length b \<and> length b div 100 + 1 < length (indices_of b elt))"

definition b2j :: "'a list \<Rightarrow> 'a \<Rightarrow> nat list" where
  "b2j b elt = (if popular b elt then [] else indices_of b elt)"

text \<open>
  \<open>find_longest_match\<close>, first part: for each \<open>i\<close> in \<open>range(alo, ahi)\<close> and each position
  \<open>j\<close> of \<open>a[i]\<close> in \<open>b\<close>,
  \<^verbatim>\<open>
      if j < blo: continue
      if j >= bhi: break
      k = newj2len[j] = j2lenget(j-1, 0) + 1
      if k > bestsize:
          besti, bestj, bestsize = i-k+1, j-k+1, k
  \<close>
  The dictionaries \<open>j2len\<close> and \<open>newj2len\<close> are maps; \<open>j - 1\<close> is no key when \<open>j\<close> is 0.
  \<open>k\<close> is at most \<open>i + 1\<close> and \<open>j + 1\<close> (lemma \<open>flm_row_inv\<close>), so \<open>i + 1 - k\<close> on the
  natural numbers is Python's \<open>i-k+1\<close>.
\<close>

definition j2lenget :: "(nat \<rightharpoonup> nat) \<Rightarrow> nat \<Rightarrow> nat" where
  "j2lenget j2len j = (if j = 0 then 0 else case j2len (j - 1) of None \<Rightarrow> 0 | Some k \<Rightarrow> k)"

fun flm_row :: "(nat \<rightharpoonup> nat) \<Rightarrow> nat \<Rightarrow> nat \<Rightarrow> nat \<Rightarrow> nat list \<Rightarrow> (nat \<rightharpoonup> nat) \<times> match
    \<Rightarrow> (nat \<rightharpoonup> nat) \<times> match" where
  "flm_row j2len i blo bhi [] st = st"
| "flm_row j2len i blo bhi (j # js) (newj2len, besti, bestj, bestsize) =
     (if j < blo then flm_row j2len i blo bhi js (newj2len, besti, bestj, bestsize)
      else if bhi \<le> j then (newj2len, besti, bestj, bestsize)
      else
        (let k = j2lenget j2len j + 1 in
         if bestsize < k
         then flm_row j2len i blo bhi js (newj2len(j \<mapsto> k), i + 1 - k, j + 1 - k, k)
         else flm_row j2len i blo bhi js (newj2len(j \<mapsto> k), besti, bestj, bestsize)))"

fun flm_rows :: "'a list \<Rightarrow> 'a list \<Rightarrow> nat \<Rightarrow> nat \<Rightarrow> nat list \<Rightarrow> (nat \<rightharpoonup> nat) \<times> match \<Rightarrow> match" where
  "flm_rows a b blo bhi [] (j2len, best) = best"
| "flm_rows a b blo bhi (i # rows) (j2len, best) =
     flm_rows a b blo bhi rows (flm_row j2len i blo bhi (b2j b (a ! i)) (Map.empty, best))"

text \<open>
  \<open>find_longest_match\<close>, second part: the best block is extended to the left and to the
  right while the elements agree. As \<open>bjunk\<close> is empty, the test \<open>not isbjunk(...)\<close> of the
  first two loops is true, and the last two loops, which extend over junk only, do nothing.
\<close>

function extend_left :: "'a list \<Rightarrow> 'a list \<Rightarrow> nat \<Rightarrow> nat \<Rightarrow> match \<Rightarrow> match" where
  "extend_left a b alo blo (besti, bestj, bestsize) =
     (if alo < besti \<and> blo < bestj \<and> a ! (besti - 1) = b ! (bestj - 1)
      then extend_left a b alo blo (besti - 1, bestj - 1, bestsize + 1)
      else (besti, bestj, bestsize))"
  by pat_completeness auto
termination
  by (relation "measure (\<lambda>(a, b, alo, blo, besti, bestj, bestsize). besti)") auto

declare extend_left.simps [simp del]

function extend_right :: "'a list \<Rightarrow> 'a list \<Rightarrow> nat \<Rightarrow> nat \<Rightarrow> match \<Rightarrow> match" where
  "extend_right a b ahi bhi (besti, bestj, bestsize) =
     (if besti + bestsize < ahi \<and> bestj + bestsize < bhi
         \<and> a ! (besti + bestsize) = b ! (bestj + bestsize)
      then extend_right a b ahi bhi (besti, bestj, bestsize + 1)
      else (besti, bestj, bestsize))"
  by pat_completeness auto
termination
  by (relation "measure (\<lambda>(a, b, ahi, bhi, besti, bestj, bestsize). ahi - (besti + bestsize))") auto

declare extend_right.simps [simp del]

definition find_longest_match :: "'a list \<Rightarrow> 'a list \<Rightarrow> nat \<Rightarrow> nat \<Rightarrow> nat \<Rightarrow> nat \<Rightarrow> match" where
  "find_longest_match a b alo ahi blo bhi =
     extend_right a b ahi bhi (extend_left a b alo blo
       (flm_rows a b blo bhi [alo..<ahi] (Map.empty, alo, blo, 0)))"


text \<open>The block that \<open>find_longest_match\<close> returns lies inside the region it was given.\<close>

definition mapok :: "nat \<Rightarrow> nat \<Rightarrow> (nat \<rightharpoonup> nat) \<Rightarrow> bool" where
  "mapok r blo m = (\<forall>j v. m j = Some v \<longrightarrow> v \<le> r \<and> v + blo \<le> j + 1)"

fun binv :: "nat \<Rightarrow> nat \<Rightarrow> nat \<Rightarrow> nat \<Rightarrow> match \<Rightarrow> bool" where
  "binv alo ahi blo bhi (i, j, k) =
     (alo \<le> i \<and> blo \<le> j \<and> (if k = 0 then i = alo \<and> j = blo else i + k \<le> ahi \<and> j + k \<le> bhi))"

lemma j2lenget_bounds:
  "mapok r blo m \<Longrightarrow> blo \<le> j \<Longrightarrow> j2lenget m j \<le> r \<and> j2lenget m j + blo \<le> j"
  by (cases j) (auto simp: j2lenget_def mapok_def split: option.splits)

lemma mapok_upd: "mapok r blo m \<Longrightarrow> v \<le> r \<Longrightarrow> v + blo \<le> j + 1 \<Longrightarrow> mapok r blo (m(j \<mapsto> v))"
  by (simp add: mapok_def)

lemma flm_row_inv:
  assumes "mapok (i - alo) blo j2len" and "alo \<le> i" and "i < ahi"
  shows "mapok (i + 1 - alo) blo newj2len \<Longrightarrow> binv alo ahi blo bhi best \<Longrightarrow>
     mapok (i + 1 - alo) blo (fst (flm_row j2len i blo bhi js (newj2len, best))) \<and>
     binv alo ahi blo bhi (snd (flm_row j2len i blo bhi js (newj2len, best)))"
proof (induction js arbitrary: newj2len best)
  case Nil
  then show ?case by simp
next
  case (Cons j js)
  obtain bi bj bs where best: "best = (bi, bj, bs)" by (cases best)
  show ?case
  proof (cases "j < blo \<or> bhi \<le> j")
    case True
    with Cons best show ?thesis by auto
  next
    case False
    then have j: "blo \<le> j" "j < bhi" by simp_all
    define k where "k = j2lenget j2len j + 1"
    from j2lenget_bounds [OF assms(1) j(1)] have k: "k \<le> i + 1 - alo" "k + blo \<le> j + 1" "0 < k"
      using assms(2) unfolding k_def by linarith+
    have m: "mapok (i + 1 - alo) blo (newj2len(j \<mapsto> k))"
      using Cons.prems(1) k by (rule_tac mapok_upd)
    have "alo \<le> i + 1 - k" "blo \<le> j + 1 - k" "i + 1 - k + k \<le> ahi" "j + 1 - k + k \<le> bhi"
      using k j assms(2,3) by linarith+
    then have b: "binv alo ahi blo bhi (i + 1 - k, j + 1 - k, k)"
      using k(3) by simp
    show ?thesis
    proof (cases "bs < k")
      case True
      with False best have eq: "flm_row j2len i blo bhi (j # js) (newj2len, best)
          = flm_row j2len i blo bhi js (newj2len(j \<mapsto> k), i + 1 - k, j + 1 - k, k)"
        by (simp add: k_def)
      show ?thesis unfolding eq by (rule Cons.IH [OF m b])
    next
      case nb: False
      with False best have eq: "flm_row j2len i blo bhi (j # js) (newj2len, best)
          = flm_row j2len i blo bhi js (newj2len(j \<mapsto> k), best)"
        by (simp add: k_def)
      show ?thesis unfolding eq by (rule Cons.IH [OF m Cons.prems(2)])
    qed
  qed
qed

lemma mapok_empty: "mapok r blo Map.empty"
  by (simp add: mapok_def)

lemma flm_rows_inv:
  "rows = [i..<ahi] \<Longrightarrow> alo \<le> i \<Longrightarrow> mapok (i - alo) blo j2len \<Longrightarrow> binv alo ahi blo bhi best \<Longrightarrow>
   binv alo ahi blo bhi (flm_rows a b blo bhi rows (j2len, best))"
proof (induction rows arbitrary: i j2len best)
  case Nil
  then show ?case by simp
next
  case (Cons r rows)
  from Cons.prems(1) [symmetric] have r: "r = i" "i < ahi" "rows = [Suc i..<ahi]"
    by (auto simp: upt_eq_Cons_conv)
  let ?st = "flm_row j2len i blo bhi (b2j b (a ! i)) (Map.empty, best)"
  have st: "mapok (i + 1 - alo) blo (fst ?st) \<and> binv alo ahi blo bhi (snd ?st)"
    using Cons.prems(3) Cons.prems(2) r(2) mapok_empty Cons.prems(4) by (rule flm_row_inv)
  have "binv alo ahi blo bhi (flm_rows a b blo bhi rows (fst ?st, snd ?st))"
  proof (rule Cons.IH [OF r(3)])
    show "alo \<le> Suc i" using Cons.prems(2) by simp
    show "mapok (Suc i - alo) blo (fst ?st)" using st by simp
    show "binv alo ahi blo bhi (snd ?st)" using st by simp
  qed
  then show ?case by (simp add: r(1))
qed

lemma extend_left_inv:
  "binv alo ahi blo bhi best \<Longrightarrow> binv alo ahi blo bhi (extend_left a b alo blo best)"
proof (induction a b alo blo best rule: extend_left.induct)
  case (1 a b alo blo besti bestj bestsize)
  show ?case
  proof (cases "alo < besti \<and> blo < bestj \<and> a ! (besti - 1) = b ! (bestj - 1)")
    case True
    moreover from True "1.prems" have "binv alo ahi blo bhi (besti - 1, bestj - 1, bestsize + 1)"
      by (auto split: if_splits)
    ultimately show ?thesis using "1.IH" by (subst extend_left.simps) simp
  next
    case False
    with "1.prems" show ?thesis by (subst extend_left.simps) auto
  qed
qed

lemma extend_right_inv:
  "binv alo ahi blo bhi best \<Longrightarrow> binv alo ahi blo bhi (extend_right a b ahi bhi best)"
proof (induction a b ahi bhi best rule: extend_right.induct)
  case (1 a b ahi bhi besti bestj bestsize)
  show ?case
  proof (cases "besti + bestsize < ahi \<and> bestj + bestsize < bhi
         \<and> a ! (besti + bestsize) = b ! (bestj + bestsize)")
    case True
    moreover from True "1.prems" have "binv alo ahi blo bhi (besti, bestj, bestsize + 1)"
      by (auto split: if_splits)
    ultimately show ?thesis using "1.IH" by (subst extend_right.simps) simp
  next
    case False
    with "1.prems" show ?thesis by (subst extend_right.simps) auto
  qed
qed

lemma find_longest_match_inv: "binv alo ahi blo bhi (find_longest_match a b alo ahi blo bhi)"
proof -
  have "binv alo ahi blo bhi (flm_rows a b blo bhi [alo..<ahi] (Map.empty, alo, blo, 0))"
    by (rule flm_rows_inv [where i = alo]) (simp_all add: mapok_empty)
  then show ?thesis
    unfolding find_longest_match_def by (intro extend_right_inv extend_left_inv)
qed

lemma find_longest_match_bounds:
  assumes "find_longest_match a b alo ahi blo bhi = (i, j, k)" and "k \<noteq> 0"
  shows "alo \<le> i \<and> i + k \<le> ahi \<and> blo \<le> j \<and> j + k \<le> bhi"
  using find_longest_match_inv [of alo ahi blo bhi a b] assms by simp

text \<open>
  \<open>get_matching_blocks\<close>: the regions still to be examined are kept in \<open>queue\<close>;
  \<open>queue.pop()\<close> takes the region appended last, so the head of the list below is the
  end of Python's list.
  \<^verbatim>\<open>
      while queue:
          alo, ahi, blo, bhi = queue.pop()
          i, j, k = x = self.find_longest_match(alo, ahi, blo, bhi)
          if k:
              matching_blocks.append(x)
              if alo < i and blo < j:
                  queue.append((alo, i, blo, j))
              if i+k < ahi and j+k < bhi:
                  queue.append((i+k, ahi, j+k, bhi))
  \<close>
\<close>

type_synonym region = "nat \<times> nat \<times> nat \<times> nat"

fun region_size :: "region \<Rightarrow> nat" where
  "region_size (alo, ahi, blo, bhi) = 2 * (ahi - alo) + 1"

function matching_loop :: "'a list \<Rightarrow> 'a list \<Rightarrow> region list \<Rightarrow> match list \<Rightarrow> match list" where
  "matching_loop a b [] matching_blocks = matching_blocks"
| "matching_loop a b ((alo, ahi, blo, bhi) # queue) matching_blocks =
     (case find_longest_match a b alo ahi blo bhi of (i, j, k) \<Rightarrow>
        if k \<noteq> 0 then
          matching_loop a b
            ((if i + k < ahi \<and> j + k < bhi then [(i + k, ahi, j + k, bhi)] else []) @
             (if alo < i \<and> blo < j then [(alo, i, blo, j)] else []) @ queue)
            (matching_blocks @ [(i, j, k)])
        else matching_loop a b queue matching_blocks)"
  by pat_completeness auto
termination
proof (relation "measure (\<lambda>(a, b, queue, blocks). sum_list (map region_size queue))", goal_cases)
  case 1
  show ?case by simp
next
  case (2 a b alo ahi blo bhi queue matching_blocks i y j k)
  then have "find_longest_match a b alo ahi blo bhi = (i, j, k)" by simp
  from find_longest_match_bounds [OF this \<open>k \<noteq> 0\<close>] have "alo \<le> i" "i + k \<le> ahi" by simp_all
  with \<open>k \<noteq> 0\<close> show ?case by auto
next
  case 3
  show ?case by simp
qed

declare matching_loop.simps [simp del]

text \<open>The blocks are sorted and adjacent blocks are merged; a final empty block is added.\<close>

fun collapse :: "match \<Rightarrow> match list \<Rightarrow> match list" where
  "collapse (i1, j1, k1) [] = (if k1 \<noteq> 0 then [(i1, j1, k1)] else [])"
| "collapse (i1, j1, k1) ((i2, j2, k2) # rest) =
     (if i1 + k1 = i2 \<and> j1 + k1 = j2 then collapse (i1, j1, k1 + k2) rest
      else (if k1 \<noteq> 0 then [(i1, j1, k1)] else []) @ collapse (i2, j2, k2) rest)"

definition get_matching_blocks :: "'a list \<Rightarrow> 'a list \<Rightarrow> match list" where
  "get_matching_blocks a b =
     (let la = length a; lb = length b;
          matching_blocks = sort (matching_loop a b [(0, la, 0, lb)] [])
      in collapse (0, 0, 0) matching_blocks @ [(la, lb, 0)])"

text \<open>
  \<open>ratio\<close> is \<open>2.0 * matches / length\<close>, or \<open>1.0\<close> when both sequences are empty. The
  floating point quotient is modelled by the exact rational number.
\<close>

definition calculate_ratio :: "nat \<Rightarrow> nat \<Rightarrow> rat" where
  "calculate_ratio matches len = (if len \<noteq> 0 then 2 * of_nat matches / of_nat len else 1)"

definition ratio :: "'a list \<Rightarrow> 'a list \<Rightarrow> rat" where
  "ratio a b =
     (let matches = sum_list (map (\<lambda>(i, j, k). k) (get_matching_blocks a b))
      in calculate_ratio matches (length a + length b))"

section \<open>Questions\<close>

text \<open>\<open>class Question(namedtuple("Question", "id, question, answer"))\<close>.\<close>

record question =
  q_id :: int
  q_question :: str
  q_answer :: str

text \<open>
  \<^verbatim>\<open>
  def check(self, answer):
      answer = Question.cleanup(answer)
      if not answer or len(answer) < 1:
          return False
      expected = Question.cleanup(self.answer)
      ratio = SequenceMatcher(None, expected, answer).ratio()
      return ratio >= self.ratio
  \<close>
  with the class attribute \<open>ratio = 0.87\<close>. The comparison of the two floating point
  numbers is modelled by the comparison of the exact quotient with 87/100. Rounding is
  monotone and a quotient \<open>2 * M / T\<close> other than 87/100 differs from it by at least
  \<open>1 / (100 * T)\<close>, so both comparisons agree as long as the combined length \<open>T\<close> of the
  two strings is below \<open>10^13\<close>.
\<close>

definition question_ratio :: rat where
  "question_ratio = 87 / 100"

definition question_check :: "runtime \<Rightarrow> question \<Rightarrow> str \<Rightarrow> bool" where
  "question_check py self submitted =
     (let ans = cleanup py submitted in
      if ans = [] then False
      else
        (let expected = cleanup py (q_answer self) in
         question_ratio \<le> ratio expected ans))"

section \<open>The pool of questions\<close>

text \<open>
  What one call of \<open>Pool.seed\<close> receives from outside: the questions that its first
  \<open>try\<close> block appends (the rendering of the opentdb items is not modelled), the decoded
  answer of jservice, or \<open>None\<close> when the request or the decoding raises, and the values
  that the random generator returns, as a function of the argument of \<open>randbelow\<close>.
\<close>

datatype jvalue = Absent | Null | Number int

record jservice_item =
  item_value :: jvalue
  item_answer :: "str option"
  item_question :: "str option"

record refill =
  opentdb :: "question list"
  jservice :: "jservice_item list option"
  randbelow :: "nat \<Rightarrow> nat"

text \<open>
  The loop over the jservice items. A missing key \<open>answer\<close> or \<open>question\<close> raises
  \<open>KeyError\<close>, which the \<open>except\<close> around the loop catches: the loop is over and the
  questions appended so far stay.
  \<^verbatim>\<open>
  for i in res:
      value = i.get("value", 0) or 1000
      if value > 800:
          continue
      answer = i["answer"]
      question = i["question"]
      question = "Trivia: {}".format(question)
      if len(question) > 300:
          continue
      self.questions.append(Question(0, question, answer))
  \<close>
\<close>

definition value_or_1000 :: "jvalue \<Rightarrow> int" where
  "value_or_1000 v = (case v of Absent \<Rightarrow> 1000 | Null \<Rightarrow> 1000
     | Number n \<Rightarrow> if n = 0 then 1000 else n)"

fun seed_jservice :: "jservice_item list \<Rightarrow> question list \<Rightarrow> question list" where
  "seed_jservice [] questions = questions"
| "seed_jservice (i # res) questions =
     (if 800 < value_or_1000 (item_value i) then seed_jservice res questions
      else
        (case item_answer i of None \<Rightarrow> questions
         | Some ans \<Rightarrow>
            (case item_question i of None \<Rightarrow> questions
             | Some q \<Rightarrow>
                (let rendered = lit ''Trivia: '' @ q in
                 if 300 < length rendered then seed_jservice res questions
                 else seed_jservice res
                   (questions @ [\<lparr>q_id = 0, q_question = rendered, q_answer = ans\<rparr>])))))"

text \<open>
  \<open>random.shuffle\<close>:
  \<^verbatim>\<open>
  for i in reversed(range(1, len(x))):
      j = randbelow(i + 1)
      x[i], x[j] = x[j], x[i]
  \<close>
\<close>

fun shuffle_from :: "(nat \<Rightarrow> nat) \<Rightarrow> nat \<Rightarrow> 'a list \<Rightarrow> 'a list" where
  "shuffle_from rb 0 x = x"
| "shuffle_from rb (Suc i) x =
     (let j = rb (Suc i + 1) mod (Suc i + 1)
      in shuffle_from rb i (x[Suc i := x ! j, j := x ! Suc i]))"

definition shuffle :: "(nat \<Rightarrow> nat) \<Rightarrow> 'a list \<Rightarrow> 'a list" where
  "shuffle rb x = shuffle_from rb (length x - 1) x"

definition seed :: "refill \<Rightarrow> question list \<Rightarrow> question list" where
  "seed r questions =
     (let questions = questions @ opentdb r;
          questions = (case jservice r of None \<Rightarrow> questions
                       | Some res \<Rightarrow> seed_jservice res questions)
      in shuffle (randbelow r) questions)"

text \<open>
  \<^verbatim>\<open>
  def get_question(self):
      if not self.questions:
          self.seed()
      if not self.questions:
          return None
      return self.questions.pop()
  \<close>
  The result is the question, if there is one, and the list that is left.
\<close>

definition get_question :: "refill \<Rightarrow> question list \<Rightarrow> question option \<times> question list" where
  "get_question r questions =
     (let questions = (if questions = [] then seed r questions else questions)
      in if questions = [] then (None, questions)
         else (Some (last questions), butlast questions))"

section \<open>The game\<close>

datatype result = CORRECT | INCORRECT | WON

text \<open>\<open>counts\<close> is a \<open>Counter\<close>: a dictionary, kept here in insertion order, in which a
  missing key reads as 0.\<close>

record game =
  towin :: int
  counts :: "(str \<times> int) list"
  cur_question :: "question option"

definition game_init :: "int \<Rightarrow> game" where
  "game_init n = \<lparr>towin = n, counts = [], cur_question = None\<rparr>"

definition counter_get :: "(str \<times> int) list \<Rightarrow> str \<Rightarrow> int" where
  "counter_get c k = (case map_of c k of None \<Rightarrow> 0 | Some v \<Rightarrow> v)"

fun counter_set :: "str \<Rightarrow> int \<Rightarrow> (str \<times> int) list \<Rightarrow> (str \<times> int) list" where
  "counter_set k v [] = [(k, v)]"
| "counter_set k v ((k', v') # c) =
     (if k' = k then (k, v) # c else (k', v') # counter_set k v c)"

text \<open>
  The property \<open>Game.question\<close> asks the pool when there is no current question:
  \<^verbatim>\<open>
  if not self._question:
      self._question = Pool.question()
  return self._question
  \<close>
  A \<open>Question\<close> is a tuple of three fields and so never false; \<open>not self._question\<close>
  holds for \<open>None\<close> only. The pool is the one instance that \<open>Pool.question\<close> keeps in
  the class.
\<close>

definition game_question ::
    "refill \<Rightarrow> game \<Rightarrow> question list \<Rightarrow> question option \<times> game \<times> question list" where
  "game_question r self pool =
     (case cur_question self of
        None \<Rightarrow> (case get_question r pool of (q, pool') \<Rightarrow> (q, self\<lparr>cur_question := q\<rparr>, pool'))
      | Some q \<Rightarrow> (Some q, self, pool))"

datatype error = ValueError string | AttributeError string

text \<open>
  \<^verbatim>\<open>
  def check(self, answerer, answer):
      if not self._question:
          raise ValueError("no question asked")
      if self._question.check(answer):
          self.counts[answerer] += 1
          if self.counts[answerer] >= self.towin:
              return Result.WON
          return Result.CORRECT
      return Result.INCORRECT
  \<close>
\<close>

definition game_check ::
    "runtime \<Rightarrow> str \<Rightarrow> str \<Rightarrow> game \<Rightarrow> error + result \<times> game" where
  "game_check py answerer submitted self =
     (case cur_question self of
        None \<Rightarrow> Inl (ValueError ''no question asked'')
      | Some q \<Rightarrow>
          if question_check py q submitted then
            (let self = self\<lparr>counts :=
                   counter_set answerer (counter_get (counts self) answerer + 1) (counts self)\<rparr>
             in if towin self \<le> counter_get (counts self) answerer
                then Inr (WON, self) else Inr (CORRECT, self))
          else Inr (INCORRECT, self))"

definition game_skip :: "game \<Rightarrow> game" where
  "game_skip self = self\<lparr>cur_question := None\<rparr>"

section \<open>The command\<close>

text \<open>
  A call of \<open>self.post(template, *args)\<close> is recorded with its template and its
  arguments; the formatting and the delivery belong to the base class.
\<close>

datatype arg = AStr str | AInt int | AGame game | AQuestion "question option"

type_synonym post = "string \<times> arg list"

record message =
  nick :: str
  msg :: str

text \<open>
  The state of the command, together with the questions of the pool instance and the
  posts made so far.
\<close>

record trivia =
  game :: "game option"
  deadline :: rat
  pool :: "question list"
  posted :: "post list"

definition timeout :: rat where
  "timeout = 30"

definition trivia_init :: trivia where
  "trivia_init = \<lparr>game = None, deadline = 0, pool = [], posted = []\<rparr>"

definition post :: "string \<Rightarrow> arg list \<Rightarrow> trivia \<Rightarrow> trivia" where
  "post template args self = self\<lparr>posted := posted self @ [(template, args)]\<rparr>"

definition handles :: "str \<Rightarrow> trivia \<Rightarrow> bool" where
  "handles cmd self = (if cmd = lit ''!trivia'' then True else game self \<noteq> None)"

text \<open>
  \<open>int(s)\<close> on a string, as the interpreter does it. A string with a character outside
  ASCII is rewritten first: white space becomes a blank, a decimal digit becomes its ASCII
  digit, and at any other character above 126 a question mark is written and the
  rewriting stops. Then white space of the C locale (9 to 13 and 32) is skipped, a sign is
  read, then decimal digits with single underscores between them, then white space again,
  and the end of the string must follow. A number with more than 640 digits and more
  digits than the limit, when there is a limit, raises \<open>ValueError\<close> as well.
\<close>

fun transform_decimal_and_space :: "runtime \<Rightarrow> str \<Rightarrow> str" where
  "transform_decimal_and_space py [] = []"
| "transform_decimal_and_space py (ch # rest) =
     (if ch < 127 then ch # transform_decimal_and_space py rest
      else if isspace ch then blank # transform_decimal_and_space py rest
      else (case todecimal py ch of
              None \<Rightarrow> [cp CHR ''?'']
            | Some d \<Rightarrow> (cp CHR ''0'' + d) # transform_decimal_and_space py rest))"

definition c_isspace :: "nat \<Rightarrow> bool" where
  "c_isspace c = ((9 \<le> c \<and> c \<le> 13) \<or> c = 32)"

definition isdigit :: "nat \<Rightarrow> bool" where
  "isdigit c = (48 \<le> c \<and> c \<le> 57)"

definition digit_or_underscore :: "nat \<Rightarrow> bool" where
  "digit_or_underscore c = (isdigit c \<or> c = cp CHR ''_'')"

fun valid_digits :: "str \<Rightarrow> bool" where
  "valid_digits [] = False"
| "valid_digits [c] = isdigit c"
| "valid_digits (c # d # cs) =
     (isdigit c \<and> (if d = cp CHR ''_'' then valid_digits cs else valid_digits (d # cs)))"

definition digits_value :: "str \<Rightarrow> nat" where
  "digits_value s = foldl (\<lambda>acc c. if c = cp CHR ''_'' then acc else 10 * acc + (c - 48)) 0 s"

definition int_of_string :: "runtime \<Rightarrow> str \<Rightarrow> int option" where
  "int_of_string py s =
     (let buffer = (if list_all (\<lambda>ch. ch < 128) s then s else transform_decimal_and_space py s);
          t = dropWhile c_isspace buffer;
          neg = (t \<noteq> [] \<and> hd t = cp CHR ''-'');
          t = (if t \<noteq> [] \<and> (hd t = cp CHR ''-'' \<or> hd t = cp CHR ''+'') then tl t else t);
          d = takeWhile digit_or_underscore t;
          rest = dropWhile c_isspace (dropWhile digit_or_underscore t);
          digits = length (filter isdigit d)
      in if valid_digits d \<and> rest = []
            \<and> \<not> (640 < digits \<and> 0 < max_str_digits py \<and> max_str_digits py < digits)
         then Some ((if neg then - 1 else 1) * int (digits_value d))
         else None)"

text \<open>
  \<open>__call__(self, cmd, remainder, msg)\<close>. \<open>allowed\<close> is the answer of \<open>self.allowed(msg)\<close>
  and \<open>r\<close> is what a refill of the pool would receive during this call. A raise is a
  result \<open>Inl\<close>; both raises below happen before the command has changed anything.
  \<^verbatim>\<open>
  if not self.allowed(msg):
      return False
  if cmd == "!trivia":
      if self.game:
          self.post("{}", self.game)
          return True
      try:
          towin = max(1, int(remainder.strip()))
      except Exception:
          towin = 5
      self.deadline = 0
      self.game = Game(towin)
      self.post("Started a trivia with {} to win", towin)
      return True
  res = self.game.check(msg.nick, msg.msg)
  if res == Result.WON:
      self.game = None
      self.post("WE GOT A WINRAR! Congrats {}", msg.nick)
      return True
  if res == Result.CORRECT:
      self.deadline = 0
      self.post("Indeed, {}: {}", msg.nick, self.game.question.answer)
      self.game.skip()
      return True
  return False
  \<close>
\<close>

definition parse_towin :: "runtime \<Rightarrow> str \<Rightarrow> int" where
  "parse_towin py remainder =
     (case int_of_string py (strip remainder) of Some n \<Rightarrow> max 1 n | None \<Rightarrow> 5)"

definition call ::
    "runtime \<Rightarrow> refill \<Rightarrow> bool \<Rightarrow> str \<Rightarrow> str \<Rightarrow> message \<Rightarrow> trivia
      \<Rightarrow> error + bool \<times> trivia" where
  "call py r allowed cmd remainder m self =
     (if \<not> allowed then Inr (False, self)
      else if cmd = lit ''!trivia'' then
        (case game self of
           Some g \<Rightarrow> Inr (True, post ''{}'' [AGame g] self)
         | None \<Rightarrow>
            (let n = parse_towin py remainder;
                 self = self\<lparr>deadline := 0\<rparr>;
                 self = self\<lparr>game := Some (game_init n)\<rparr>
             in Inr (True, post ''Started a trivia with {} to win'' [AInt n] self)))
      else
        (case game self of
           None \<Rightarrow> Inl (AttributeError ''check'')
         | Some g \<Rightarrow>
            (case game_check py (nick m) (msg m) g of
               Inl e \<Rightarrow> Inl e
             | Inr (res, g) \<Rightarrow>
                 if res = WON then
                   (let self = self\<lparr>game := None\<rparr>
                    in Inr (True, post ''WE GOT A WINRAR! Congrats {}'' [AStr (nick m)] self))
                 else if res = CORRECT then
                   (let self = self\<lparr>deadline := 0\<rparr> in
                    case game_question r g (pool self) of (q, g, pool') \<Rightarrow>
                      (case q of
                         None \<Rightarrow> Inl (AttributeError ''answer'')
                       | Some qu \<Rightarrow>
                          (let self = post ''Indeed, {}: {}'' [AStr (nick m), AStr (q_answer qu)]
                                 (self\<lparr>pool := pool'\<rparr>)
                           in Inr (True, self\<lparr>game := Some (game_skip g)\<rparr>))))
                 else Inr (False, self\<lparr>game := Some g\<rparr>))))"

text \<open>
  \<open>onpulse\<close> at the time \<open>now\<close> (the value of \<open>time()\<close>, a rational number here).
  \<^verbatim>\<open>
  if not self.game:
      return
  if not self.deadline:
      self.deadline = time() + self.timeout
      self.post("{}", self.game.question)
      return
  if not self.deadline > time():
      self.post("Too slow! Answer: {}", self.game.question.answer)
      self.game.skip()
      self.deadline = 0
      return
  \<close>
\<close>

definition onpulse :: "rat \<Rightarrow> refill \<Rightarrow> trivia \<Rightarrow> error + trivia" where
  "onpulse now r self =
     (case game self of
        None \<Rightarrow> Inr self
      | Some g \<Rightarrow>
          if deadline self = 0 then
            (let self = self\<lparr>deadline := now + timeout\<rparr> in
             case game_question r g (pool self) of (q, g, pool') \<Rightarrow>
               Inr (post ''{}'' [AQuestion q] (self\<lparr>game := Some g, pool := pool'\<rparr>)))
          else if \<not> now < deadline self then
            (case game_question r g (pool self) of (q, g, pool') \<Rightarrow>
               (case q of
                  None \<Rightarrow> Inl (AttributeError ''answer'')
                | Some qu \<Rightarrow>
                   (let self = post ''Too slow! Answer: {}'' [AStr (q_answer qu)]
                          (self\<lparr>game := Some g, pool := pool'\<rparr>);
                        self = self\<lparr>game := Some (game_skip g)\<rparr>
                    in Inr (self\<lparr>deadline := 0\<rparr>))))
          else Inr self)"

text \<open>
  The dispatcher of the bot asks \<open>handles\<close> before it passes a line to \<open>__call__\<close>, and it
  calls \<open>onpulse\<close> from time to time.
\<close>

datatype event = Line refill bool str str message | Pulse rat refill

fun dispatch :: "runtime \<Rightarrow> event \<Rightarrow> trivia \<Rightarrow> error + trivia" where
  "dispatch py (Line r allowed cmd remainder m) self =
     (if handles cmd self
      then (case call py r allowed cmd remainder m self of Inl e \<Rightarrow> Inl e | Inr (consumed, self) \<Rightarrow> Inr self)
      else Inr self)"
| "dispatch py (Pulse now r) self = onpulse now r self"

fun run :: "runtime \<Rightarrow> event list \<Rightarrow> trivia \<Rightarrow> error + trivia" where
  "run py [] self = Inr self"
| "run py (e # es) self =
     (case dispatch py e self of Inl err \<Rightarrow> Inl err | Inr self \<Rightarrow> run py es self)"

section \<open>Measures used in the proofs\<close>

text \<open>The size of a matching block and the two widths of a region of the queue.\<close>

fun block_size :: "match \<Rightarrow> nat" where
  "block_size (i, j, k) = k"

fun width_a :: "region \<Rightarrow> nat" where
  "width_a (alo, ahi, blo, bhi) = ahi - alo"

fun width_b :: "region \<Rightarrow> nat" where
  "width_b (alo, ahi, blo, bhi) = bhi - blo"

text \<open>
  For a sequence compared with itself: the length of the run of elements that are not
  popular and end at position \<open>j\<close>, and what the proof knows about the row before
  row \<open>i\<close>.
\<close>

fun diag_run :: "'a list \<Rightarrow> nat \<Rightarrow> nat" where
  "diag_run s 0 = (if popular s (s ! 0) then 0 else 1)"
| "diag_run s (Suc j) = (if popular s (s ! Suc j) then 0 else diag_run s j + 1)"

definition prev_ok :: "'a list \<Rightarrow> nat \<Rightarrow> (nat \<rightharpoonup> nat) \<Rightarrow> bool" where
  "prev_ok s i m \<longleftrightarrow>
     (\<forall>j v. m j = Some v \<longrightarrow> 0 < i \<and> v \<le> diag_run s j \<and> v \<le> diag_run s (i - 1))
     \<and> (0 < i \<and> \<not> popular s (s ! (i - 1)) \<longrightarrow> m (i - 1) = Some (diag_run s (i - 1)))"

section \<open>Example data\<close>

text \<open>
  Tables for the concrete instances below. On the code points below 256 they are the
  tables of Python 3.11; above, no character is folded, alphanumeric or a digit.
\<close>

definition latin1_fold :: "nat \<Rightarrow> nat list" where
  "latin1_fold c =
     (if 65 \<le> c \<and> c \<le> 90 then [c + 32]
      else if c = 181 then [956]
      else if 192 \<le> c \<and> c \<le> 222 \<and> c \<noteq> 215 then [c + 32]
      else if c = 223 then [115, 115]
      else [c])"

definition latin1_isalnum :: "nat \<Rightarrow> bool" where
  "latin1_isalnum c =
     ((48 \<le> c \<and> c \<le> 57) \<or> (65 \<le> c \<and> c \<le> 90) \<or> (97 \<le> c \<and> c \<le> 122) \<or> c = 170
      \<or> c = 178 \<or> c = 179 \<or> c = 181 \<or> c = 185 \<or> c = 186 \<or> (188 \<le> c \<and> c \<le> 190)
      \<or> (192 \<le> c \<and> c \<le> 214) \<or> (216 \<le> c \<and> c \<le> 246) \<or> (248 \<le> c \<and> c \<le> 255))"

definition latin1_todecimal :: "nat \<Rightarrow> nat option" where
  "latin1_todecimal c = (if 48 \<le> c \<and> c \<le> 57 then Some (c - 48) else None)"

definition latin1 :: runtime where
  "latin1 = \<lparr>tofolded = latin1_fold, isalnum = latin1_isalnum, todecimal = latin1_todecimal,
     max_str_digits = 4300\<rparr>"

text \<open>A question, a refill that brings nothing, and a state in which the question has been
  announced; the concrete instances of the theorems below use them.\<close>

definition paris :: question where
  "paris = \<lparr>q_id = 0, q_question = lit ''Trivia: Capital of France?'', q_answer = lit ''Paris''\<rparr>"

definition no_refill :: refill where
  "no_refill = \<lparr>opentdb = [], jservice = None, randbelow = (\<lambda>n. 0)\<rparr>"

definition asked :: trivia where
  "asked = \<lparr>game = Some \<lparr>towin = 3, counts = [(lit ''alice'', 2)], cur_question = Some paris\<rparr>,
     deadline = 130, pool = [], posted = [(''{}'', [AQuestion (Some paris)])]\<rparr>"

definition started :: trivia where
  "started = \<lparr>game = Some \<lparr>towin = 3, counts = [], cur_question = None\<rparr>, deadline = 0,
     pool = [], posted = [(''Started a trivia with {} to win'', [AInt 3])]\<rparr>"


section \<open>Properties\<close>

subsection \<open>Auxiliary facts\<close>

lemma counter_get_set:
  "counter_get (counter_set k v c) k' = (if k' = k then v else counter_get c k')"
  by (induction c) (auto simp: counter_get_def)

lemma paris_accepts: "question_check latin1 paris (lit ''paris'')"
  by code_simp

lemma paris_rejects: "\<not> question_check latin1 paris (lit ''london'')"
  by code_simp

subsection \<open>Scoring\<close>

text \<open>
  Claim C3, as stated, fails: the score is incremented before it is compared with
  \<open>towin\<close>. With \<open>towin = 3\<close> and a recorded score of 2, which is strictly below \<open>towin\<close>,
  a correct answer returns \<open>WON\<close>, not \<open>CORRECT\<close>.
\<close>

theorem correct_answer_at_threshold_counterexample:
  "counter_get (counts \<lparr>towin = 3, counts = [(lit ''alice'', 2)], cur_question = Some paris\<rparr>) (lit ''alice'')
      < towin \<lparr>towin = 3, counts = [(lit ''alice'', 2)], cur_question = Some paris\<rparr>
   \<and> question_check latin1 paris (lit ''paris'')
   \<and> game_check latin1 (lit ''alice'') (lit ''paris'') \<lparr>towin = 3, counts = [(lit ''alice'', 2)], cur_question = Some paris\<rparr>
       = Inr (WON, \<lparr>towin = 3, counts = [(lit ''alice'', 3)], cur_question = Some paris\<rparr>)"
  using paris_accepts by (simp add: game_check_def counter_get_def)

text \<open>
  Claim C3, amended: a correct check by \<open>p\<close> adds one to the score of \<open>p\<close> and returns
  \<open>WON\<close> when the score before the check is at least \<open>towin - 1\<close>, and \<open>CORRECT\<close> when
  it is strictly below \<open>towin - 1\<close>. So after \<open>towin\<close> correct answers by \<open>p\<close> every
  further correct answer of \<open>p\<close> returns \<open>WON\<close>, and so does the one that reaches \<open>towin\<close>.
\<close>

theorem correct_answer_result:
  assumes "cur_question g = Some q" and "question_check py q submitted"
  shows "game_check py p submitted g =
      Inr (if towin g \<le> counter_get (counts g) p + 1 then WON else CORRECT,
           g\<lparr>counts := counter_set p (counter_get (counts g) p + 1) (counts g)\<rparr>)
    \<and> counter_get (counter_set p (counter_get (counts g) p + 1) (counts g)) p
        = counter_get (counts g) p + 1"
  using assms by (simp add: game_check_def counter_get_set)

text \<open>Claim C3, an instance of the amended statement: threshold 3, score 1 before the
  check, the answer is correct and the result is \<open>CORRECT\<close>.\<close>

theorem correct_answer_result_witness:
  "game_check latin1 (lit ''alice'') (lit ''paris'') \<lparr>towin = 3, counts = [(lit ''alice'', 1)], cur_question = Some paris\<rparr>
     = Inr (CORRECT, \<lparr>towin = 3, counts = [(lit ''alice'', 2)], cur_question = Some paris\<rparr>)"
  using correct_answer_result [where g = "\<lparr>towin = 3, counts = [(lit ''alice'', 1)], cur_question = Some paris\<rparr>"
      and q = paris and py = latin1 and submitted = "lit ''paris''" and p = "lit ''alice''"] paris_accepts
  by (simp add: counter_get_def)

subsection \<open>The start command\<close>

text \<open>
  Claim C4, as stated, fails for a number that is not positive: \<open>max(1, int(...))\<close> raises
  it to 1, and no exception leads to the default. The remainder \<open>0\<close> starts a game with
  threshold 1, not 5.
\<close>

theorem start_with_zero_counterexample:
  "int_of_string latin1 (strip (lit ''0'')) = Some 0
   \<and> call latin1 no_refill True (lit ''!trivia'') (lit ''0'') \<lparr>nick = lit ''bob'', msg = lit ''!trivia 0''\<rparr> trivia_init
     = Inr (True, \<lparr>game = Some \<lparr>towin = 1, counts = [], cur_question = None\<rparr>, deadline = 0,
          pool = [], posted = [(''Started a trivia with {} to win'', [AInt 1])]\<rparr>)"
  by code_simp

text \<open>
  Claim C4, amended: a start command received while no game is active creates a game
  whose threshold is 5 when the remainder does not parse as an integer, 1 when it
  parses as an integer \<open>n \<le> 0\<close>, and \<open>n\<close> when it parses as an integer \<open>n \<ge> 1\<close>; the
  deadline is reset and the threshold is announced.
\<close>

theorem start_threshold:
  assumes "game self = None"
  shows "call py r True (lit ''!trivia'') remainder m self =
      Inr (True, self\<lparr>deadline := 0, game := Some (game_init (parse_towin py remainder)),
                   posted := posted self @
                     [(''Started a trivia with {} to win'', [AInt (parse_towin py remainder)])]\<rparr>)
    \<and> (int_of_string py (strip remainder) = None \<longrightarrow> parse_towin py remainder = 5)
    \<and> (\<forall>n. int_of_string py (strip remainder) = Some n \<longrightarrow>
          parse_towin py remainder = (if n \<le> 0 then 1 else n))"
  using assms by (auto simp: call_def post_def parse_towin_def Let_def)

text \<open>Claim C4, instances of the amended statement: the remainder \<open>-2\<close> gives the
  threshold 1, the remainder \<open>x\<close> gives 5.\<close>

theorem start_threshold_witness:
  "call latin1 no_refill True (lit ''!trivia'') (lit ''-2'') \<lparr>nick = lit ''bob'', msg = lit ''!trivia -2''\<rparr> trivia_init
     = Inr (True, \<lparr>game = Some \<lparr>towin = 1, counts = [], cur_question = None\<rparr>, deadline = 0,
          pool = [], posted = [(''Started a trivia with {} to win'', [AInt 1])]\<rparr>)
   \<and> parse_towin latin1 (lit ''x'') = 5"
proof -
  have g: "game trivia_init = None" by (simp add: trivia_init_def)
  have a: "int_of_string latin1 (strip (lit ''-2'')) = Some (- 2)" by code_simp
  have b: "int_of_string latin1 (strip (lit ''x'')) = None" by code_simp
  from start_threshold [OF g, where py = latin1 and r = no_refill and remainder = "lit ''-2''"
      and m = "\<lparr>nick = lit ''bob'', msg = lit ''!trivia -2''\<rparr>"] a
  have 1: "parse_towin latin1 (lit ''-2'') = 1" by simp
  from start_threshold [OF g, where py = latin1 and r = no_refill and remainder = "lit ''x''"
      and m = "\<lparr>nick = lit ''bob'', msg = lit ''!trivia -2''\<rparr>"] b
  have 2: "parse_towin latin1 (lit ''x'') = 5" by simp
  from start_threshold [OF g, where py = latin1 and r = no_refill and remainder = "lit ''-2''"
      and m = "\<lparr>nick = lit ''bob'', msg = lit ''!trivia -2''\<rparr>"] 1 2
  show ?thesis by (simp add: trivia_init_def game_init_def)
qed

subsection \<open>Answers that are not correct\<close>

text \<open>
  Claim C10: when a game is active and has a current question, and the matcher rejects
  the text of a line that is not the start command, then \<open>Game.check\<close> returns
  \<open>INCORRECT\<close> and leaves the game as it is, and the command returns \<open>False\<close> (not
  consumed) with its whole state unchanged: scores, current question, deadline, pool,
  and no new post.
\<close>

theorem incorrect_answer_changes_nothing:
  assumes "game self = Some g" and "cur_question g = Some q"
    and "\<not> question_check py q (msg m)" and "cmd \<noteq> (lit ''!trivia'')"
  shows "game_check py (nick m) (msg m) g = Inr (INCORRECT, g)
    \<and> call py r allowed cmd remainder m self = Inr (False, self)"
proof -
  have c: "game_check py (nick m) (msg m) g = Inr (INCORRECT, g)"
    using assms(2,3) by (simp add: game_check_def)
  have "self\<lparr>game := Some g\<rparr> = self" using assms(1) by simp
  with c assms(1,4) show ?thesis by (simp add: call_def)
qed

text \<open>Claim C10, an instance: the question asks for Paris and bob writes london.\<close>

theorem incorrect_answer_changes_nothing_witness:
  "game_check latin1 (lit ''bob'') (lit ''london'') \<lparr>towin = 3, counts = [(lit ''alice'', 2)], cur_question = Some paris\<rparr>
     = Inr (INCORRECT, \<lparr>towin = 3, counts = [(lit ''alice'', 2)], cur_question = Some paris\<rparr>)
   \<and> call latin1 no_refill True (lit ''london'') [] \<lparr>nick = lit ''bob'', msg = lit ''london''\<rparr> asked = Inr (False, asked)"
proof -
  have h: "\<not> question_check latin1 paris (msg \<lparr>nick = lit ''bob'', msg = lit ''london''\<rparr>)"
    using paris_rejects by simp
  have g: "game asked = Some \<lparr>towin = 3, counts = [(lit ''alice'', 2)], cur_question = Some paris\<rparr>"
    by (simp add: asked_def)
  have n: "lit ''london'' \<noteq> lit ''!trivia''" by (simp add: lit_def cp_def)
  from incorrect_answer_changes_nothing [OF g _ h n, where r = no_refill and allowed = True
      and remainder = "[]"]
  show ?thesis by simp
qed

subsection \<open>A line that arrives before a question has been asked\<close>

text \<open>
  Claim C1 says that the routing predicate keeps \<open>Game.check\<close> from being called without
  a current question. The code does not: after the start command, and until the first pulse
  has announced a question, \<open>handles\<close> admits every line because a game is active, and
  \<open>Game.check\<close> raises \<open>ValueError("no question asked")\<close>. The run below starts from the
  initial state with a start command and an ordinary line.
\<close>

theorem answer_before_first_question_fails:
  "dispatch latin1 (Line no_refill True (lit ''!trivia'') (lit ''3'') \<lparr>nick = lit ''alice'', msg = lit ''!trivia 3''\<rparr>) trivia_init
     = Inr started
   \<and> handles (lit ''hello'') started
   \<and> call latin1 no_refill True (lit ''hello'') [] \<lparr>nick = lit ''bob'', msg = lit ''hello''\<rparr> started
     = Inl (ValueError ''no question asked'')
   \<and> run latin1 [Line no_refill True (lit ''!trivia'') (lit ''3'') \<lparr>nick = lit ''alice'', msg = lit ''!trivia 3''\<rparr>,
           Line no_refill True (lit ''hello'') [] \<lparr>nick = lit ''bob'', msg = lit ''hello''\<rparr>] trivia_init
     = Inl (ValueError ''no question asked'')"
  by code_simp

subsection \<open>A pulse when the pool has no question\<close>

text \<open>
  Claim C2 says that a pulse with an active game and an exhausted pool neither posts nor
  fails. In the code the announcing branch sets the deadline and posts the value \<open>None\<close>
  that \<open>Game.question\<close> returned, and the branch for a passed deadline reads the attribute
  \<open>answer\<close> of \<open>None\<close>, which raises \<open>AttributeError\<close>.
\<close>

theorem pulse_with_exhausted_pool:
  "get_question no_refill [] = (None, [])
   \<and> onpulse 100 no_refill started
     = Inr (started\<lparr>deadline := 130, posted := posted started @ [(''{}'', [AQuestion None])]\<rparr>)
   \<and> onpulse 130 no_refill
        (started\<lparr>deadline := 130, posted := posted started @ [(''{}'', [AQuestion None])]\<rparr>)
     = Inl (AttributeError ''answer'')"
  by code_simp

subsection \<open>The items of jservice\<close>

text \<open>
  Claim C5, as stated, fails: \<open>i.get("value", 0) or 1000\<close> gives an item without a value,
  or with the value 0, the value 1000, which is above the limit of 800, so the item is
  skipped. Of the three items below only the one with the value 200 is appended.
\<close>

theorem jservice_item_without_value_counterexample:
  "seed_jservice
     [\<lparr>item_value = Absent, item_answer = Some (lit ''Paris''), item_question = Some (lit ''Capital of France?'')\<rparr>,
      \<lparr>item_value = Number 0, item_answer = Some (lit ''Rome''), item_question = Some (lit ''Capital of Italy?'')\<rparr>,
      \<lparr>item_value = Number 200, item_answer = Some (lit ''Bern''), item_question = Some (lit ''Capital of Switzerland?'')\<rparr>]
     []
   = [\<lparr>q_id = 0, q_question = lit ''Trivia: Capital of Switzerland?'', q_answer = lit ''Bern''\<rparr>]"
  by code_simp

text \<open>
  Claim C5, amended: an item of jservice is skipped exactly when its value exceeds 800
  after a missing, null or zero value has been replaced by 1000, or when its rendered
  question is longer than 300 characters; so an item whose value is missing or zero is
  always skipped, and the items that are not skipped are appended in their order. (The
  items are assumed to have the keys \<open>answer\<close> and \<open>question\<close>.)
\<close>

theorem jservice_items_kept:
  assumes "\<forall>i \<in> set res. item_answer i \<noteq> None \<and> item_question i \<noteq> None"
  shows "seed_jservice res questions =
     questions @
     map (\<lambda>i. \<lparr>q_id = 0, q_question = lit ''Trivia: '' @ the (item_question i), q_answer = the (item_answer i)\<rparr>)
       (filter (\<lambda>i. \<not> 800 < value_or_1000 (item_value i)
                  \<and> \<not> 300 < length ((lit ''Trivia: '') @ the (item_question i))) res)
   \<and> (\<forall>v. 800 < value_or_1000 v \<longleftrightarrow>
          v = Absent \<or> v = Null \<or> v = Number 0 \<or> (\<exists>n. v = Number n \<and> 800 < n))"
proof
  show "seed_jservice res questions =
     questions @
     map (\<lambda>i. \<lparr>q_id = 0, q_question = lit ''Trivia: '' @ the (item_question i), q_answer = the (item_answer i)\<rparr>)
       (filter (\<lambda>i. \<not> 800 < value_or_1000 (item_value i)
                  \<and> \<not> 300 < length ((lit ''Trivia: '') @ the (item_question i))) res)"
    using assms
  proof (induction res arbitrary: questions)
    case Nil
    then show ?case by simp
  next
    case (Cons i res)
    from Cons.prems obtain a q where aq: "item_answer i = Some a" "item_question i = Some q"
      by auto
    from Cons.prems have rest: "\<forall>i \<in> set res. item_answer i \<noteq> None \<and> item_question i \<noteq> None"
      by simp
    show ?case
      using Cons.IH [OF rest] aq by (simp add: Let_def)
  qed
next
  show "\<forall>v. 800 < value_or_1000 v \<longleftrightarrow>
          v = Absent \<or> v = Null \<or> v = Number 0 \<or> (\<exists>n. v = Number n \<and> 800 < n)"
    by (auto simp: value_or_1000_def split: jvalue.splits)
qed

text \<open>
  Claim C5, an instance of the amended statement: the item with the value 1000 is skipped
  and the item with the value 800 is appended.
\<close>

theorem jservice_items_kept_witness:
  "seed_jservice
     [\<lparr>item_value = Number 1000, item_answer = Some (lit ''Paris''), item_question = Some (lit ''Capital of France?'')\<rparr>,
      \<lparr>item_value = Number 800, item_answer = Some (lit ''Bern''), item_question = Some (lit ''Capital of Switzerland?'')\<rparr>]
     [paris]
   = [paris, \<lparr>q_id = 0, q_question = lit ''Trivia: Capital of Switzerland?'', q_answer = lit ''Bern''\<rparr>]
   \<and> 800 < value_or_1000 Absent"
  using jservice_items_kept [of
     "[\<lparr>item_value = Number 1000, item_answer = Some (lit ''Paris''), item_question = Some (lit ''Capital of France?'')\<rparr>,
      \<lparr>item_value = Number 800, item_answer = Some (lit ''Bern''), item_question = Some (lit ''Capital of Switzerland?'')\<rparr>]"
     "[paris]"]
  by (simp add: value_or_1000_def lit_def)

subsection \<open>Pulses while a question is open\<close>





subsection \<open>Normalisation is idempotent\<close>

lemma set_r_cleanup_sub: "set (r_cleanup_sub py prev s) \<subseteq> insert blank (set s)"
proof (induction py prev s rule: r_cleanup_sub.induct)
  case (1 py prev)
  then show ?case by simp
next
  case (2 py prev c cs)
  show ?case
  proof (cases "r_cleanup_match py prev (c # cs)")
    case None
    with 2(1) show ?thesis by auto
  next
    case (Some n)
    have "set (drop n (c # cs)) \<subseteq> set (c # cs)" by (rule set_drop_subset)
    with 2(2) [OF Some] Some show ?thesis by auto
  qed
qed

lemma set_strip: "set (strip s) \<subseteq> set s"
proof -
  have "set (strip s) \<subseteq> set (dropWhile isspace s)"
    unfolding strip_def using set_dropWhileD by fastforce
  also have "\<dots> \<subseteq> set s" using set_dropWhileD by fastforce
  finally show ?thesis .
qed

lemma set_cleanup_loop: "set (cleanup_loop py s) \<subseteq> insert blank (set s)"
proof (induction py s rule: cleanup_loop.induct)
  case (1 py s)
  let ?n = "strip (r_cleanup_sub py None s)"
  show ?case
  proof (cases "?n = s")
    case True
    then show ?thesis by (subst cleanup_loop.simps) (auto simp: Let_def)
  next
    case False
    have "set ?n \<subseteq> insert blank (set s)"
      using set_strip [of "r_cleanup_sub py None s"] set_r_cleanup_sub [of py None s] by blast
    moreover have "set (cleanup_loop py ?n) \<subseteq> insert blank (set ?n)"
      using 1 [OF refl False] .
    moreover have "cleanup_loop py s = cleanup_loop py ?n"
      using False by (subst cleanup_loop.simps) (simp add: Let_def)
    ultimately show ?thesis by auto
  qed
qed

lemma cleanup_loop_fixed: "strip (r_cleanup_sub py None (cleanup_loop py s)) = cleanup_loop py s"
proof (induction py s rule: cleanup_loop.induct)
  case (1 py s)
  let ?n = "strip (r_cleanup_sub py None s)"
  show ?case
  proof (cases "?n = s")
    case True
    then have "cleanup_loop py s = s" by (subst cleanup_loop.simps) (simp add: Let_def)
    with True show ?thesis by simp
  next
    case False
    then have "cleanup_loop py s = cleanup_loop py ?n"
      by (subst cleanup_loop.simps) (simp add: Let_def)
    with 1 [OF refl False] show ?thesis by simp
  qed
qed

lemma cleanup_loop_stable: "strip (r_cleanup_sub py None s) = s \<Longrightarrow> cleanup_loop py s = s"
  by (subst cleanup_loop.simps) (simp add: Let_def)

text \<open>
  When case folding never gives the empty string and folding a folding changes nothing,
  every character of a folding folds to itself.
\<close>

lemma concat_singletons:
  "\<forall>x \<in> set xs. f x \<noteq> [] \<Longrightarrow> concat (map f xs) = xs \<Longrightarrow> \<forall>x \<in> set xs. f x = [x]"
proof (induction xs)
  case Nil
  then show ?case by simp
next
  case (Cons x xs)
  have len: "length xs \<le> length (concat (map f xs))"
    using Cons.prems(1)
  proof (induction xs)
    case Nil
    then show ?case by simp
  next
    case (Cons y ys)
    then have "1 \<le> length (f y)" by (cases "f y") auto
    with Cons show ?case by auto
  qed
  from Cons.prems(2) have eq: "f x @ concat (map f xs) = x # xs" by simp
  then have "length (f x) + length (concat (map f xs)) = Suc (length xs)"
    by (metis length_append length_Cons)
  moreover from Cons.prems(1) have "1 \<le> length (f x)" by (cases "f x") auto
  ultimately have l1: "length (f x) = 1" using len by linarith
  then obtain y where fx: "f x = [y]" by (cases "f x") auto
  with eq have "y = x" and rest: "concat (map f xs) = xs" by simp_all
  with fx have "f x = [x]" by simp
  moreover have "\<forall>z \<in> set xs. f z = [z]"
    using Cons.IH rest Cons.prems(1) by simp
  ultimately show ?case by simp
qed

lemma folded_fixed:
  assumes "\<forall>c. tofolded py c \<noteq> []" and "\<forall>c. casefold py (tofolded py c) = tofolded py c"
    and "d \<in> set (casefold py s)"
  shows "tofolded py d = [d]"
proof -
  from assms(3) obtain c where "d \<in> set (tofolded py c)" by (auto simp: casefold_def)
  moreover have "\<forall>x \<in> set (tofolded py c). tofolded py x = [x]"
    using assms(1,2) by (intro concat_singletons) (simp_all add: casefold_def)
  ultimately show ?thesis by simp
qed

lemma casefold_fixed: "\<forall>c \<in> set s. tofolded py c = [c] \<Longrightarrow> casefold py s = s"
  by (induction s) (simp_all add: casefold_def)

lemma casefold_cleanup:
  assumes "\<forall>c. tofolded py c \<noteq> []" and "\<forall>c. casefold py (tofolded py c) = tofolded py c"
    and "tofolded py blank = [blank]"
  shows "casefold py (cleanup py s) = cleanup py s"
proof (rule casefold_fixed, rule ballI)
  fix c assume "c \<in> set (cleanup py s)"
  then have "c = blank \<or> c \<in> set (casefold py s)"
    using set_cleanup_loop [of py "casefold py s"] by (auto simp: cleanup_def)
  then show "tofolded py c = [c]"
    using assms(3) folded_fixed [OF assms(1,2)] by auto
qed

text \<open>
  Claim C8: \<open>cleanup(cleanup(s)) = cleanup(s)\<close> for every string \<open>s\<close>, a sequence of any
  Unicode code points. The loop of \<open>cleanup\<close> ends for every input (its termination is
  proved with the definition), its result is a fixed point of substitution and stripping,
  and the result contains only blanks and characters of a case folding, so that a second
  call changes nothing. The classes of white space and of word characters may be any;
  of the case folding table the theorem uses that it never gives the empty string, that
  folding a folding changes nothing (\<open>c.casefold().casefold() == c.casefold()\<close> for
  every character \<open>c\<close>) and that the blank folds to itself. Unicode's case folding has
  these properties.
\<close>

theorem cleanup_idempotent:
  assumes "\<forall>c. tofolded py c \<noteq> []" and "\<forall>c. casefold py (tofolded py c) = tofolded py c"
    and "tofolded py blank = [blank]"
  shows "cleanup py (cleanup py s) = cleanup py s"
proof -
  have "cleanup py (cleanup py s) = cleanup_loop py (cleanup py s)"
    by (simp add: cleanup_def [of py "cleanup py s"] casefold_cleanup [OF assms])
  also have "\<dots> = cleanup py s"
    by (rule cleanup_loop_stable) (simp add: cleanup_def cleanup_loop_fixed)
  finally show ?thesis .
qed

lemma latin1_fold_nonempty: "\<forall>c. tofolded latin1 c \<noteq> []"
  by (simp add: latin1_def latin1_fold_def)

lemma latin1_fold_idempotent: "\<forall>c. casefold latin1 (tofolded latin1 c) = tofolded latin1 c"
  by (simp add: latin1_def latin1_fold_def casefold_def)

lemma latin1_fold_blank: "tofolded latin1 blank = [blank]"
  by (simp add: latin1_def latin1_fold_def blank_def cp_def)

text \<open>
  Claim C8, an instance: the tables are those of the code points below 256, and the
  string has capitals, an article, punctuation, a tag, a sharp s (which folds to two
  characters) and a no-break space.
\<close>

theorem cleanup_idempotent_witness:
  "cleanup latin1 (lit ''The  Stra'' @ [223] @ lit ''e <b>of</b> '' @ [201, 160] @ lit ''cole.'')
     = lit ''strasse '' @ [233] @ lit '' cole''
   \<and> cleanup latin1 (cleanup latin1
        (lit ''The  Stra'' @ [223] @ lit ''e <b>of</b> '' @ [201, 160] @ lit ''cole.''))
     = cleanup latin1 (lit ''The  Stra'' @ [223] @ lit ''e <b>of</b> '' @ [201, 160] @ lit ''cole.'')"
proof
  show "cleanup latin1 (lit ''The  Stra'' @ [223] @ lit ''e <b>of</b> '' @ [201, 160] @ lit ''cole.'')
     = lit ''strasse '' @ [233] @ lit '' cole''"
    by code_simp
next
  show "cleanup latin1 (cleanup latin1
        (lit ''The  Stra'' @ [223] @ lit ''e <b>of</b> '' @ [201, 160] @ lit ''cole.''))
     = cleanup latin1 (lit ''The  Stra'' @ [223] @ lit ''e <b>of</b> '' @ [201, 160] @ lit ''cole.'')"
    using cleanup_idempotent [OF latin1_fold_nonempty latin1_fold_idempotent latin1_fold_blank] .
qed


subsection \<open>The similarity ratio\<close>

lemma sum_collapse:
  "sum_list (map block_size (collapse (i1, j1, k1) rest)) = k1 + sum_list (map block_size rest)"
  by (induction rest arbitrary: i1 j1 k1) auto

lemma sum_insort:
  "sum_list (map f (insort_key g x xs)) = (f x :: nat) + sum_list (map f xs)"
  by (induction xs) auto

lemma sum_sort: "sum_list (map f (sort_key g xs)) = (sum_list (map f xs) :: nat)"
  by (induction xs) (auto simp: sum_insort)

lemma matching_loop_sum:
  "sum_list (map block_size (matching_loop a b queue blocks))
     \<le> sum_list (map block_size blocks) + sum_list (map width_a queue)
   \<and> sum_list (map block_size (matching_loop a b queue blocks))
     \<le> sum_list (map block_size blocks) + sum_list (map width_b queue)"
proof (induction a b queue blocks rule: matching_loop.induct)
  case (1 a b matching_blocks)
  show ?case by (simp add: matching_loop.simps)
next
  case (2 a b alo ahi blo bhi queue matching_blocks)
  obtain i j k where f: "find_longest_match a b alo ahi blo bhi = (i, j, k)"
    by (cases "find_longest_match a b alo ahi blo bhi") auto
  show ?case
  proof (cases "k = 0")
    case True
    with f have "matching_loop a b ((alo, ahi, blo, bhi) # queue) matching_blocks
        = matching_loop a b queue matching_blocks"
      by (simp add: matching_loop.simps)
    moreover note 2(2) [OF f [symmetric] refl] True
    ultimately show ?thesis by simp
  next
    case False
    let ?q = "(if i + k < ahi \<and> j + k < bhi then [(i + k, ahi, j + k, bhi)] else []) @
              (if alo < i \<and> blo < j then [(alo, i, blo, j)] else []) @ queue"
    from f False have eq: "matching_loop a b ((alo, ahi, blo, bhi) # queue) matching_blocks
        = matching_loop a b ?q (matching_blocks @ [(i, j, k)])"
      by (simp add: matching_loop.simps)
    from find_longest_match_bounds [OF f False]
    have b: "alo \<le> i" "i + k \<le> ahi" "blo \<le> j" "j + k \<le> bhi" by simp_all
    have wa: "k + sum_list (map width_a ?q) \<le> sum_list (map width_a ((alo, ahi, blo, bhi) # queue))"
      using b by auto
    have wb: "k + sum_list (map width_b ?q) \<le> sum_list (map width_b ((alo, ahi, blo, bhi) # queue))"
      using b by auto
    have ih: "sum_list (map block_size (matching_loop a b ?q (matching_blocks @ [(i, j, k)])))
       \<le> sum_list (map block_size (matching_blocks @ [(i, j, k)])) + sum_list (map width_a ?q)
     \<and> sum_list (map block_size (matching_loop a b ?q (matching_blocks @ [(i, j, k)])))
       \<le> sum_list (map block_size (matching_blocks @ [(i, j, k)])) + sum_list (map width_b ?q)"
      using 2(1) [OF f [symmetric] refl False] .
    have s: "sum_list (map block_size (matching_blocks @ [(i, j, k)]))
        = sum_list (map block_size matching_blocks) + k" by simp
    show ?thesis
      unfolding eq using ih wa wb unfolding s by linarith
  qed
qed

lemma matches_le:
  "sum_list (map (\<lambda>(i, j, k). k) (get_matching_blocks a b)) \<le> length a
   \<and> sum_list (map (\<lambda>(i, j, k). k) (get_matching_blocks a b)) \<le> length b"
proof -
  have e: "(\<lambda>(i, j, k). k) = block_size" by (auto simp: fun_eq_iff)
  have "sum_list (map block_size (get_matching_blocks a b))
      = sum_list (map block_size (matching_loop a b [(0, length a, 0, length b)] []))"
    by (simp add: get_matching_blocks_def Let_def sum_collapse sum_sort)
  with matching_loop_sum [of a b "[(0, length a, 0, length b)]" "[]"] show ?thesis
    by (simp add: e)
qed

text \<open>
  Claim C7, as stated, fails: the ratio is not symmetric. \<open>find_longest_match\<close> takes the
  first of several longest blocks, and which one is first depends on the order of the two
  sequences. Both strings below are normalised already; with \<open>tide\<close> as the expected answer
  and \<open>diet\<close> as the submission the ratio is 1/4, the other way round it is 1/2.
\<close>

theorem ratio_symmetric_counterexample:
  "cleanup latin1 (lit ''tide'') = (lit ''tide'') \<and> cleanup latin1 (lit ''diet'') = (lit ''diet'')
   \<and> ratio (cleanup latin1 (lit ''tide'')) (cleanup latin1 (lit ''diet'')) = 1 / 4
   \<and> ratio (cleanup latin1 (lit ''diet'')) (cleanup latin1 (lit ''tide'')) = 1 / 2"
  by code_simp

text \<open>
  Claim C7, amended: for every pair of sequences, so for every pair of normalised strings,
  the similarity ratio lies in the closed interval from 0 to 1. (It is not symmetric.)
\<close>

theorem ratio_in_unit_interval: "0 \<le> ratio a b \<and> ratio a b \<le> 1"
proof -
  define m where "m = sum_list (map (\<lambda>(i, j, k). k) (get_matching_blocks a b))"
  from matches_le [of a b] have "m \<le> length a" "m \<le> length b" by (simp_all add: m_def)
  then have "2 * m \<le> length a + length b" by simp
  then have "2 * (of_nat m :: rat) \<le> of_nat (length a + length b)"
    by (metis of_nat_le_iff of_nat_mult of_nat_numeral)
  moreover have "ratio a b = calculate_ratio m (length a + length b)"
    by (simp add: ratio_def m_def)
  ultimately show ?thesis
    by (auto simp: calculate_ratio_def divide_le_eq_1 simp del: of_nat_add)
qed

subsection \<open>A sequence compared with itself\<close>

text \<open>
  When both sequences are the same, the first longest block that the rows of
  \<open>find_longest_match\<close> find lies on the diagonal: a block that ends in row \<open>i\<close> and column
  \<open>j\<close> is no longer than the diagonal blocks that end at \<open>i\<close> and at \<open>j\<close>, and one of these
  has been seen before. The extension then covers the whole sequence, also over its
  popular elements.
\<close>

lemma diag_run_unpopular:
  "\<not> popular s (s ! j) \<Longrightarrow> diag_run s j = (if j = 0 then 1 else diag_run s (j - 1) + 1)"
  by (cases j) simp_all

lemma diag_run_popular: "popular s (s ! j) \<Longrightarrow> diag_run s j = 0"
  by (cases j) simp_all

lemma j2lenget_diag:
  assumes "prev_ok s i m" and "\<not> popular s (s ! i)" and "s ! j = s ! i"
  shows "j2lenget m j + 1 \<le> diag_run s j"
    and "j2lenget m j + 1 \<le> diag_run s i"
    and "j = i \<Longrightarrow> j2lenget m j + 1 = diag_run s i"
proof -
  have nj: "\<not> popular s (s ! j)" using assms(2,3) by simp
  show "j2lenget m j + 1 \<le> diag_run s j"
    using assms(1) by (auto simp: diag_run_unpopular [OF nj] j2lenget_def prev_ok_def split: option.splits)
  show "j2lenget m j + 1 \<le> diag_run s i"
  proof (cases "j = 0 \<or> m (j - 1) = None")
    case True
    then have "j2lenget m j = 0" by (auto simp: j2lenget_def)
    then show ?thesis by (simp add: diag_run_unpopular [OF assms(2)])
  next
    case False
    then obtain v where v: "m (j - 1) = Some v" "0 < j" by auto
    with assms(1) have "0 < i" "v \<le> diag_run s (i - 1)" by (auto simp: prev_ok_def)
    with v show ?thesis by (simp add: diag_run_unpopular [OF assms(2)] j2lenget_def)
  qed
  show "j2lenget m j + 1 = diag_run s i" if "j = i"
  proof (cases "i = 0")
    case True
    have "diag_run s i = 1" using True assms(2) by simp
    moreover have "j2lenget m j = 0" using that True by (simp add: j2lenget_def)
    ultimately show ?thesis by simp
  next
    case False
    show ?thesis
    proof (cases "popular s (s ! (i - 1))")
      case True
      then have d: "diag_run s (i - 1) = 0" by (rule diag_run_popular)
      have "j2lenget m i = 0"
        using assms(1) d False by (auto simp: j2lenget_def prev_ok_def split: option.splits)
      with that False d show ?thesis by (simp add: diag_run_unpopular [OF assms(2)])
    next
      case np: False
      with assms(1) False have "m (i - 1) = Some (diag_run s (i - 1))" by (simp add: prev_ok_def)
      with that False show ?thesis by (simp add: j2lenget_def diag_run_unpopular [OF assms(2)])
    qed
  qed
qed

lemma diag_row:
  assumes p: "prev_ok s i j2len" and u: "\<not> popular s (s ! i)"
  shows "sorted_wrt (<) js \<Longrightarrow> \<forall>j \<in> set js. j < n \<and> s ! j = s ! i \<Longrightarrow> bi = bj \<Longrightarrow>
    \<forall>j' < i. diag_run s j' \<le> bs \<Longrightarrow> i \<in> set js \<or> diag_run s i \<le> bs \<Longrightarrow>
    \<forall>j v. nm j = Some v \<longrightarrow> v \<le> diag_run s j \<and> v \<le> diag_run s i \<Longrightarrow>
    i \<notin> set js \<longrightarrow> nm i = Some (diag_run s i) \<Longrightarrow>
    (case flm_row j2len i 0 n js (nm, bi, bj, bs) of (nm', bi', bj', bs') \<Rightarrow>
       bi' = bj' \<and> (\<forall>j' \<le> i. diag_run s j' \<le> bs')
       \<and> (\<forall>j v. nm' j = Some v \<longrightarrow> v \<le> diag_run s j \<and> v \<le> diag_run s i)
       \<and> nm' i = Some (diag_run s i))"
proof (induction js arbitrary: nm bi bj bs)
  case Nil
  then show ?case by (auto simp: le_less)
next
  case (Cons j js)
  from Cons.prems(2) have j: "j < n" "s ! j = s ! i" by simp_all
  define k where "k = j2lenget j2len j + 1"
  note kf = j2lenget_diag [OF p u j(2), folded k_def]
  have srt: "sorted_wrt (<) js" and rest: "\<forall>j \<in> set js. j < n \<and> s ! j = s ! i"
    and above: "\<forall>x \<in> set js. j < x"
    using Cons.prems(1,2) by simp_all
  have nm': "\<forall>j' v. (nm(j \<mapsto> k)) j' = Some v \<longrightarrow> v \<le> diag_run s j' \<and> v \<le> diag_run s i"
    using Cons.prems(6) kf(1,2) by auto
  have at_i: "i \<notin> set js \<longrightarrow> (nm(j \<mapsto> k)) i = Some (diag_run s i)"
    using Cons.prems(7) kf(3) by auto
  show ?case
  proof (cases "bs < k")
    case True
    have "j = i"
    proof (rule ccontr)
      assume ne: "j \<noteq> i"
      show False
      proof (cases "j < i")
        case True
        with Cons.prems(4) have "diag_run s j \<le> bs" by simp
        with kf(1) \<open>bs < k\<close> show False by simp
      next
        case False
        with ne have "i < j" by simp
        with above have "i \<notin> set (j # js)" by auto
        with Cons.prems(5) have "diag_run s i \<le> bs" by simp
        with kf(2) \<open>bs < k\<close> show False by simp
      qed
    qed
    with kf(3) have ki: "k = diag_run s i" by simp
    have eq: "flm_row j2len i 0 n (j # js) (nm, bi, bj, bs)
        = flm_row j2len i 0 n js (nm(j \<mapsto> k), i + 1 - k, j + 1 - k, k)"
      using True j(1) by (simp add: k_def)
    show ?thesis unfolding eq
    proof (rule Cons.IH [OF srt rest _ _ _ nm' at_i])
      show "i + 1 - k = j + 1 - k" using \<open>j = i\<close> by simp
      show "\<forall>j' < i. diag_run s j' \<le> k" using Cons.prems(4) True by auto
      show "i \<in> set js \<or> diag_run s i \<le> k" using ki by simp
    qed
  next
    case False
    have eq: "flm_row j2len i 0 n (j # js) (nm, bi, bj, bs)
        = flm_row j2len i 0 n js (nm(j \<mapsto> k), bi, bj, bs)"
      using False j(1) by (simp add: k_def)
    show ?thesis unfolding eq
    proof (rule Cons.IH [OF srt rest Cons.prems(3,4) _ nm' at_i])
      show "i \<in> set js \<or> diag_run s i \<le> bs"
        using Cons.prems(5) kf(3) False by auto
    qed
  qed
qed

lemma sorted_indices_of: "sorted_wrt (<) (indices_of b x)"
  by (simp add: indices_of_def sorted_wrt_filter)

lemma diag_rows:
  "rows = [i..<length s] \<Longrightarrow> prev_ok s i j2len \<Longrightarrow> bi = bj \<Longrightarrow> \<forall>j' < i. diag_run s j' \<le> bs \<Longrightarrow>
   (case flm_rows s s 0 (length s) rows (j2len, bi, bj, bs) of (bi', bj', bs') \<Rightarrow> bi' = bj')"
proof (induction rows arbitrary: i j2len bi bj bs)
  case Nil
  then show ?case by simp
next
  case (Cons r rows)
  from Cons.prems(1) [symmetric] have r: "r = i" "i < length s" "rows = [Suc i..<length s]"
    by (auto simp: upt_eq_Cons_conv)
  obtain nm' bi' bj' bs' where
    st: "flm_row j2len i 0 (length s) (b2j s (s ! i)) (Map.empty, bi, bj, bs) = (nm', bi', bj', bs')"
    by (metis prod_cases4)
  have inv: "bi' = bj' \<and> (\<forall>j' < Suc i. diag_run s j' \<le> bs') \<and> prev_ok s (Suc i) nm'"
  proof (cases "popular s (s ! i)")
    case True
    with st have "nm' = Map.empty" "bi' = bi" "bj' = bj" "bs' = bs" by (simp_all add: b2j_def)
    with Cons.prems(3,4) True show ?thesis
      by (auto simp: prev_ok_def diag_run_popular less_Suc_eq)
  next
    case False
    have "case flm_row j2len i 0 (length s) (indices_of s (s ! i)) (Map.empty, bi, bj, bs) of
        (nm', bi', bj', bs') \<Rightarrow>
       bi' = bj' \<and> (\<forall>j' \<le> i. diag_run s j' \<le> bs')
       \<and> (\<forall>j v. nm' j = Some v \<longrightarrow> v \<le> diag_run s j \<and> v \<le> diag_run s i)
       \<and> nm' i = Some (diag_run s i)"
    proof (rule diag_row [OF Cons.prems(2) False sorted_indices_of _ Cons.prems(3,4)])
      show "\<forall>j \<in> set (indices_of s (s ! i)). j < length s \<and> s ! j = s ! i"
        by (simp add: indices_of_def)
      show "i \<in> set (indices_of s (s ! i)) \<or> diag_run s i \<le> bs"
        using r(2) by (simp add: indices_of_def)
      show "\<forall>j v. Map.empty j = Some v \<longrightarrow> v \<le> diag_run s j \<and> v \<le> diag_run s i" by simp
      show "i \<notin> set (indices_of s (s ! i)) \<longrightarrow> Map.empty i = Some (diag_run s i)"
        using r(2) by (simp add: indices_of_def)
    qed
    with st False show ?thesis
      by (auto simp: b2j_def prev_ok_def less_Suc_eq_le)
  qed
  have "case flm_rows s s 0 (length s) rows (nm', bi', bj', bs') of (bi', bj', bs') \<Rightarrow> bi' = bj'"
    using inv by (intro Cons.IH [OF r(3)]) simp_all
  then show ?case by (simp add: r(1) st)
qed

lemma extend_left_diag: "extend_left a a 0 0 (i, i, k) = (0, 0, k + i)"
proof (induction i arbitrary: k)
  case 0
  show ?case by (subst extend_left.simps) simp
next
  case (Suc i)
  show ?case by (subst extend_left.simps) (simp add: Suc)
qed

lemma extend_right_diag: "k \<le> n \<Longrightarrow> extend_right a a n n (0, 0, k) = (0, 0, n)"
proof (induction "n - k" arbitrary: k)
  case 0
  then show ?case by (subst extend_right.simps) simp
next
  case (Suc d)
  then have "k < n" "d = n - (k + 1)" "k + 1 \<le> n" by simp_all
  with Suc(1) [of "k + 1"] show ?case by (subst extend_right.simps) simp
qed

lemma find_longest_match_self:
  "find_longest_match a a 0 (length a) 0 (length a) = (0, 0, length a)"
proof -
  let ?n = "length a"
  obtain bi bj bs where rows: "flm_rows a a 0 ?n [0..<?n] (Map.empty, 0, 0, 0) = (bi, bj, bs)"
    by (metis prod_cases3)
  have "case flm_rows a a 0 ?n [0..<?n] (Map.empty, 0, 0, 0) of (bi', bj', bs') \<Rightarrow> bi' = bj'"
    by (rule diag_rows [where i = 0]) (simp_all add: prev_ok_def)
  with rows have d: "bi = bj" by simp
  have "binv 0 ?n 0 ?n (flm_rows a a 0 ?n [0..<?n] (Map.empty, 0, 0, 0))"
    by (rule flm_rows_inv [where i = 0]) (simp_all add: mapok_empty)
  with rows d have le: "bs + bj \<le> ?n" by (auto split: if_splits)
  show ?thesis
    by (simp add: find_longest_match_def rows d extend_left_diag extend_right_diag [OF le])
qed

lemma get_matching_blocks_self:
  "a \<noteq> [] \<Longrightarrow> get_matching_blocks a a = [(0, 0, length a), (length a, length a, 0)]"
  by (simp add: get_matching_blocks_def Let_def matching_loop.simps find_longest_match_self)

lemma ratio_self: "a \<noteq> [] \<Longrightarrow> ratio a a = 1"
  by (simp add: ratio_def get_matching_blocks_self calculate_ratio_def)

subsection \<open>The empty submission and the expected answer\<close>

lemma cleanup_empty: "cleanup py [] = []"
  by (simp add: cleanup_def casefold_def cleanup_loop_stable strip_def)

text \<open>
  Claim C6, as stated, fails in its second half: an expected answer that normalises to
  the empty string is rejected even when it is submitted literally, because an empty
  normalised submission is rejected before anything is compared. The answer \<open>The\<close> is
  such a string.
\<close>

theorem check_expected_counterexample:
  "cleanup latin1 (lit ''The'') = []
   \<and> \<not> question_check latin1 \<lparr>q_id = 0, q_question = lit ''Trivia: The definite article?'', q_answer = lit ''The''\<rparr>
         (lit ''The'')"
  by code_simp

text \<open>
  Claim C6, amended: the empty submission is rejected for every expected answer, and
  the expected answer itself is accepted exactly when its normalisation is not empty.
\<close>

theorem check_empty_and_expected:
  "\<not> question_check py q [] \<and> (question_check py q (q_answer q) \<longleftrightarrow> cleanup py (q_answer q) \<noteq> [])"
proof
  show "\<not> question_check py q []"
    by (simp add: question_check_def cleanup_empty)
next
  show "question_check py q (q_answer q) \<longleftrightarrow> cleanup py (q_answer q) \<noteq> []"
    by (simp add: question_check_def Let_def ratio_self question_ratio_def)
qed

text \<open>Claim C6, an instance of the amended statement: the answer \<open>Paris\<close> normalises to
  \<open>paris\<close> and is accepted when submitted as it is.\<close>

theorem check_empty_and_expected_witness:
  "\<not> question_check latin1 paris [] \<and> question_check latin1 paris (lit ''Paris'')"
proof -
  have "cleanup latin1 (q_answer paris) \<noteq> []" by code_simp
  with check_empty_and_expected [where q = paris and py = latin1] show ?thesis by (simp add: paris_def)
qed

end
